theory Spec2Isabelle
  imports Main "HOL-Library.Word"
begin

unbundle bit_operations_syntax

section \<open>Bytes, errors and Go slices\<close>

text \<open>
  The two packages verified here are \<^verbatim>\<open>sni\<close> (the TLS record reader and the ClientHello
  decoder) and \<^verbatim>\<open>tlsfrag\<close> (the fragmenting \<^verbatim>\<open>net.Conn\<close> adapter). A Go \<^verbatim>\<open>byte\<close> is an
  8-bit word, a \<^verbatim>\<open>uint16\<close> a 16-bit word. Lengths and offsets that the code computes as
  \<^verbatim>\<open>int\<close> from bytes are never negative and stay far below 2^63; they are \<open>nat\<close>. The
  configured ranges of the adapter are \<^verbatim>\<open>[2]int\<close> and may be negative; they are \<open>int\<close>.
  A Go \<^verbatim>\<open>string\<close> is a byte sequence (\<^verbatim>\<open>string(d[0:n])\<close> and \<^verbatim>\<open>[]byte(s)\<close> are
  inverse copies), so \<^verbatim>\<open>ServerName\<close> is a byte list. Logging has no effect on any result
  and is left out; the two mutexes only serialise callers and are left out as well.
\<close>

type_synonym byte = "8 word"
type_synonym bytes = "byte list"
type_synonym uint16 = "16 word"

datatype error =
    ErrSSLv2    \<comment> \<open>\<^verbatim>\<open>errors.New("tls: unsupported SSLv2 handshake received")\<close>\<close>
  | ErrNotTLS   \<comment> \<open>\<^verbatim>\<open>errors.New("not a tls packet")\<close>\<close>
  | ErrEOF      \<comment> \<open>\<^verbatim>\<open>io.EOF\<close>\<close>
  | ErrIO nat   \<comment> \<open>any other error value of a reader or of the transport\<close>

text \<open>\<^verbatim>\<open>xs[lo:hi]\<close> for \<^verbatim>\<open>lo <= hi <= len(xs)\<close>.\<close>

definition subslice :: "'a list \<Rightarrow> nat \<Rightarrow> nat \<Rightarrow> 'a list" where
  "subslice xs lo hi = take (hi - lo) (drop lo xs)"

text \<open>The builtin \<^verbatim>\<open>copy(dst, src)\<close>: the first \<^verbatim>\<open>min(len(dst), len(src))\<close> elements
  of \<^verbatim>\<open>dst\<close> are overwritten; the result is the new content of \<^verbatim>\<open>dst\<close>.\<close>

definition copy_bytes :: "bytes \<Rightarrow> bytes \<Rightarrow> bytes" where
  "copy_bytes dst src = take (length dst) src @ drop (length src) dst"

text \<open>\<^verbatim>\<open>uint16(x)<<8 | uint16(y)\<close>, \<^verbatim>\<open>int(x)<<8 | int(y)\<close> and
  \<^verbatim>\<open>int(x)<<16 | int(y)<<8 | int(z)\<close>.\<close>

definition uint16_be :: "byte \<Rightarrow> byte \<Rightarrow> uint16" where
  "uint16_be x y = push_bit 8 (ucast x) OR ucast y"

definition int_be :: "byte \<Rightarrow> byte \<Rightarrow> nat" where
  "int_be x y = push_bit 8 (unat x) OR unat y"

definition int24_be :: "byte \<Rightarrow> byte \<Rightarrow> byte \<Rightarrow> nat" where
  "int24_be x y z = push_bit 16 (unat x) OR push_bit 8 (unat y) OR unat z"

section \<open>Package sni: blocks\<close>

definition recordHeaderLen :: nat where
  "recordHeaderLen = 5"

definition recordTypeHandshake :: byte where
  "recordTypeHandshake = 22"

definition typeClientHello :: byte where
  "typeClientHello = 1"

definition extensionServerName :: uint16 where
  "extensionServerName = 0"

definition extensionStatusRequest :: uint16 where
  "extensionStatusRequest = 5"

definition extensionSupportedCurves :: uint16 where
  "extensionSupportedCurves = 10"

definition extensionSupportedPoints :: uint16 where
  "extensionSupportedPoints = 11"

definition extensionSessionTicket :: uint16 where
  "extensionSessionTicket = 35"

definition extensionNextProtoNeg :: uint16 where
  "extensionNextProtoNeg = 13172"

definition statusTypeOCSP :: byte where
  "statusTypeOCSP = 1"

text \<open>A block is a slice \<^verbatim>\<open>data\<close> (its visible bytes), the capacity of the array behind
  it, and a read offset.\<close>

record block =
  data :: bytes
  cap :: nat
  off :: nat

definition newBlock :: block where
  "newBlock = \<lparr>data = [], cap = 0, off = 0\<rparr>"

text \<open>The loop \<^verbatim>\<open>for m < n { m *= 2 }\<close> of \<^verbatim>\<open>reserve\<close>. There \<^verbatim>\<open>m\<close> is the old capacity,
  replaced by 1024 when that is 0, so it is positive; the conjunct \<open>0 < m\<close> states this
  and makes the recursion well-founded.\<close>

function reserve_grow :: "nat \<Rightarrow> nat \<Rightarrow> nat" where
  "reserve_grow m n = (if m < n \<and> 0 < m then reserve_grow (m * 2) n else m)"
  by pat_completeness auto
termination
  by (relation "measure (\<lambda>(m, n). n - m)") auto

definition reserve :: "block \<Rightarrow> nat \<Rightarrow> block" where
  "reserve b n =
     (if cap b \<ge> n then b
      else b\<lparr>cap := reserve_grow (if cap b = 0 then 1024 else cap b) n\<rparr>)"

text \<open>\<^verbatim>\<open>resize\<close> reslices to \<^verbatim>\<open>n\<close> bytes. Its one caller, \<^verbatim>\<open>splitBlock\<close>, resizes a fresh
  block, whose array \<^verbatim>\<open>make\<close> has zeroed: the bytes that come into view are 0.\<close>

definition resize :: "block \<Rightarrow> nat \<Rightarrow> block" where
  "resize b n =
     (let b1 = (if n > cap b then reserve b n else b)
      in b1\<lparr>data := take n (data b1) @ replicate (n - length (data b1)) 0\<rparr>)"

definition splitBlock :: "block \<Rightarrow> nat \<Rightarrow> block \<times> block option" where
  "splitBlock b n =
     (if length (data b) \<le> n then (b, None)
      else (let bb = resize newBlock (length (data b) - n);
                bb = bb\<lparr>data := copy_bytes (data bb) (drop n (data b))\<rparr>
            in (b\<lparr>data := take n (data b)\<rparr>, Some bb)))"

section \<open>Readers\<close>

text \<open>
  An \<^verbatim>\<open>io.Reader\<close> is the list of what its coming \<^verbatim>\<open>Read\<close> calls deliver: bytes and
  possibly an error. A call with a buffer of \<open>n\<close> bytes gets at most \<open>n\<close> bytes; what
  does not fit stays for the next call. After the list, every call returns
  \<^verbatim>\<open>(0, io.EOF)\<close>. \<^verbatim>\<open>bytes.NewReader(b)\<close> is the reader that delivers \<^verbatim>\<open>b\<close> in one piece.
\<close>

type_synonym reader = "(bytes \<times> error option) list"

fun reader_Read :: "reader \<Rightarrow> nat \<Rightarrow> (bytes \<times> error option) \<times> reader" where
  "reader_Read [] n = (([], Some ErrEOF), [])"
| "reader_Read ((c, e) # rest) n =
     (if length c \<le> n then ((c, e), rest)
      else ((take n c, None), (drop n c, e) # rest))"

definition bytes_NewReader :: "bytes \<Rightarrow> reader" where
  "bytes_NewReader b = (if b = [] then [] else [(b, None)])"

definition rd_size :: "reader \<Rightarrow> nat" where
  "rd_size r = sum_list (map (\<lambda>(c, e). Suc (length c)) r)"


declare reserve_grow.simps [simp del]

lemma reserve_grow_ge: "0 < m \<Longrightarrow> n \<le> reserve_grow m n"
proof (induction m n rule: reserve_grow.induct)
  case (1 m n)
  show ?case
  proof (cases "m < n")
    case True
    with 1 show ?thesis by (subst reserve_grow.simps) simp
  next
    case False
    then show ?thesis by (subst reserve_grow.simps) simp
  qed
qed

lemma reserve_cap: "n \<le> cap (reserve b n)"
  by (simp add: reserve_def reserve_grow_ge)

lemma reserve_data [simp]: "data (reserve b n) = data b"
  by (simp add: reserve_def)

lemma reader_Read_size:
  "reader_Read r k = ((p, None), r') \<Longrightarrow> 0 < k \<Longrightarrow> rd_size r' < rd_size r"
  by (cases r) (auto simp: rd_size_def split: if_splits)

function readFromUntil :: "block \<Rightarrow> reader \<Rightarrow> nat \<Rightarrow> error option \<times> block \<times> reader" where
  "readFromUntil b r n =
     (if length (data b) \<ge> n then (None, b, r)
      else (let b1 = reserve b n;
                res = reader_Read r (cap b1 - length (data b1));
                b2 = b1\<lparr>data := data b1 @ fst (fst res)\<rparr>
            in if length (data b2) \<ge> n then (None, b2, snd res)
               else (case snd (fst res) of
                       Some err \<Rightarrow> (Some err, b2, snd res)
                     | None \<Rightarrow> readFromUntil b2 (snd res) n)))"
  by pat_completeness auto
termination
proof (relation "measure (\<lambda>(b, r, n). rd_size r)", goal_cases)
  case 1
  show ?case by simp
next
  case (2 b r n b1 res b2)
  have "length (data b) < cap (reserve b n)"
    using 2(1) reserve_cap [of n b] by simp
  then have "0 < cap b1 - length (data b1)"
    using 2(2) by simp
  moreover have "reader_Read r (cap b1 - length (data b1)) = ((fst (fst res), None), snd res)"
    using 2(3,6) by (simp add: prod_eq_iff)
  ultimately show ?case
    using reader_Read_size by simp
qed

declare readFromUntil.simps [simp del]

section \<open>Package sni: reading records\<close>

text \<open>The variables that the closure \<^verbatim>\<open>readRecord\<close> of \<^verbatim>\<open>ReadClientHello\<close> captures:
  \<^verbatim>\<open>nextBlock\<close> (\<^verbatim>\<open>nil\<close> is \<open>None\<close>), the buffer \<^verbatim>\<open>hand\<close> and the reader \<^verbatim>\<open>rd\<close>.\<close>

record rstate =
  nextBlock :: "block option"
  hand :: bytes
  rd :: reader

definition readRecord :: "rstate \<Rightarrow> error option \<times> rstate" where
  "readRecord s =
     (let b = (case nextBlock s of None \<Rightarrow> newBlock | Some b \<Rightarrow> b);
          (err, b, r) = readFromUntil b (rd s) recordHeaderLen;
          s = s\<lparr>nextBlock := Some b, rd := r\<rparr>
      in case err of Some e \<Rightarrow> (Some e, s) | None \<Rightarrow>
         (let typ = data b ! 0
          in if typ = 0x80 then (Some ErrSSLv2, s)
             else (let versions = uint16_be (data b ! 1) (data b ! 2);
                       n = int_be (data b ! 3) (data b ! 4)
                   in if typ \<noteq> recordTypeHandshake \<or> versions \<ge> 0x1000
                      then (Some ErrNotTLS, s)
                      else (let (err, b, r) = readFromUntil b r (recordHeaderLen + n);
                                s = s\<lparr>nextBlock := Some b, rd := r\<rparr>
                            in case err of Some e \<Rightarrow> (Some e, s) | None \<Rightarrow>
                               (let (b, nb) = splitBlock b (recordHeaderLen + n);
                                    b = b\<lparr>off := recordHeaderLen\<rparr>;
                                    d = subslice (data b) (off b) (recordHeaderLen + n)
                                in (None, s\<lparr>nextBlock := nb, hand := hand s @ d\<rparr>))))))"

text \<open>What is left to read: the bytes waiting in \<^verbatim>\<open>nextBlock\<close> and the reader.\<close>

definition pending :: "rstate \<Rightarrow> nat" where
  "pending s = (case nextBlock s of None \<Rightarrow> 0 | Some b \<Rightarrow> length (data b)) + rd_size (rd s)"

lemma readFromUntil_unfold:
  "readFromUntil b r n =
     (if n \<le> length (data b) then (None, b, r)
      else (let res = reader_Read r (cap (reserve b n) - length (data b));
                b2 = (reserve b n)\<lparr>data := data b @ fst (fst res)\<rparr>
            in if n \<le> length (data b2) then (None, b2, snd res)
               else (case snd (fst res) of
                       Some err \<Rightarrow> (Some err, b2, snd res)
                     | None \<Rightarrow> readFromUntil b2 (snd res) n)))"
  by (subst readFromUntil.simps) (simp add: Let_def split: option.split)

text \<open>Induction over the iterations of \<^verbatim>\<open>readFromUntil\<close>, by the way each one ends.\<close>

lemma readFromUntil_result_induct [case_names quick enough failed again]:
  assumes quick: "\<And>b r n. n \<le> length (data b) \<Longrightarrow> P b r n (None, b, r)"
    and enough: "\<And>b r n res b2. \<not> n \<le> length (data b) \<Longrightarrow>
        res = reader_Read r (cap (reserve b n) - length (data b)) \<Longrightarrow>
        b2 = (reserve b n)\<lparr>data := data b @ fst (fst res)\<rparr> \<Longrightarrow>
        n \<le> length (data b2) \<Longrightarrow> P b r n (None, b2, snd res)"
    and failed: "\<And>b r n res b2 err. \<not> n \<le> length (data b) \<Longrightarrow>
        res = reader_Read r (cap (reserve b n) - length (data b)) \<Longrightarrow>
        b2 = (reserve b n)\<lparr>data := data b @ fst (fst res)\<rparr> \<Longrightarrow>
        \<not> n \<le> length (data b2) \<Longrightarrow> snd (fst res) = Some err \<Longrightarrow>
        P b r n (Some err, b2, snd res)"
    and again: "\<And>b r n res b2. \<not> n \<le> length (data b) \<Longrightarrow>
        res = reader_Read r (cap (reserve b n) - length (data b)) \<Longrightarrow>
        b2 = (reserve b n)\<lparr>data := data b @ fst (fst res)\<rparr> \<Longrightarrow>
        \<not> n \<le> length (data b2) \<Longrightarrow> snd (fst res) = None \<Longrightarrow>
        P b2 (snd res) n (readFromUntil b2 (snd res) n) \<Longrightarrow>
        P b r n (readFromUntil b2 (snd res) n)"
  shows "P b r n (readFromUntil b r n)"
proof (induction b r n rule: readFromUntil.induct)
  case (1 b r n)
  define res where "res = reader_Read r (cap (reserve b n) - length (data b))"
  define b2 where "b2 = (reserve b n)\<lparr>data := data b @ fst (fst res)\<rparr>"
  have unf: "readFromUntil b r n =
     (if n \<le> length (data b) then (None, b, r)
      else if n \<le> length (data b2) then (None, b2, snd res)
      else (case snd (fst res) of
              Some err \<Rightarrow> (Some err, b2, snd res)
            | None \<Rightarrow> readFromUntil b2 (snd res) n))"
    by (subst readFromUntil_unfold) (simp add: Let_def b2_def res_def split: option.split)
  show ?case
  proof (cases "n \<le> length (data b)")
    case True
    then show ?thesis by (simp add: unf quick)
  next
    case nq: False
    show ?thesis
    proof (cases "n \<le> length (data b2)")
      case True
      with nq enough [OF nq res_def b2_def] show ?thesis by (simp add: unf)
    next
      case ne: False
      show ?thesis
      proof (cases "snd (fst res)")
        case (Some err)
        with nq ne failed [OF nq res_def b2_def ne] show ?thesis by (simp add: unf)
      next
        case None
        have ne': "\<not> n \<le> length (data ((reserve b n)\<lparr>data := data (reserve b n) @
            fst (fst (reader_Read r (cap (reserve b n) - length (data (reserve b n)))))\<rparr>))"
          using ne by (simp add: b2_def res_def)
        have none': "snd (fst (reader_Read r (cap (reserve b n) - length (data (reserve b n)))))
            = None"
          using None by (simp add: res_def)
        have "P b2 (snd res) n (readFromUntil b2 (snd res) n)"
          using "1.IH" [OF nq refl refl refl ne' none'] by (simp add: b2_def res_def)
        with nq ne None again [OF nq res_def b2_def ne None] show ?thesis
          by (simp add: unf)
      qed
    qed
  qed
qed

lemma reader_Read_pending:
  "length (fst (fst (reader_Read r k))) + rd_size (snd (reader_Read r k)) \<le> rd_size r"
  by (cases r) (auto simp: rd_size_def)

lemma readFromUntil_pending_aux:
  "length (data (fst (snd (readFromUntil b r n)))) + rd_size (snd (snd (readFromUntil b r n)))
     \<le> length (data b) + rd_size r"
proof (induction b r n rule: readFromUntil_result_induct)
  case (again b r n res b2)
  have "length (data b2) + rd_size (snd res) \<le> length (data b) + rd_size r"
    using reader_Read_pending [of r "cap (reserve b n) - length (data b)"] again(2,3)
    by simp
  with again(6) show ?case by simp
qed (use reader_Read_pending in \<open>auto simp: add.assoc\<close>)

lemma readFromUntil_pending:
  "readFromUntil b r n = (e, b', r') \<Longrightarrow>
     length (data b') + rd_size r' \<le> length (data b) + rd_size r"
  using readFromUntil_pending_aux [of b r n] by simp

lemma readFromUntil_length_aux:
  "fst (readFromUntil b r n) = None \<longrightarrow> n \<le> length (data (fst (snd (readFromUntil b r n))))"
  by (induction b r n rule: readFromUntil_result_induct) auto

lemma readFromUntil_length:
  "readFromUntil b r n = (None, b', r') \<Longrightarrow> n \<le> length (data b')"
  using readFromUntil_length_aux [of b r n] by simp

lemma splitBlock_data:
  "n \<le> length (data b) \<Longrightarrow>
     data (fst (splitBlock b n)) = take n (data b) \<and>
     (case snd (splitBlock b n) of None \<Rightarrow> [] | Some bb \<Rightarrow> data bb) = drop n (data b)"
  by (simp add: splitBlock_def resize_def newBlock_def copy_bytes_def Let_def)

lemma readRecord_unfold:
  assumes "readFromUntil (case nextBlock s of None \<Rightarrow> newBlock | Some b \<Rightarrow> b) (rd s)
             recordHeaderLen = (e1, b1, r1)"
  shows "readRecord s =
     (case e1 of
        Some e \<Rightarrow> (Some e, s\<lparr>nextBlock := Some b1, rd := r1\<rparr>)
      | None \<Rightarrow>
         if data b1 ! 0 = 0x80 then (Some ErrSSLv2, s\<lparr>nextBlock := Some b1, rd := r1\<rparr>)
         else if data b1 ! 0 \<noteq> recordTypeHandshake
                 \<or> uint16_be (data b1 ! 1) (data b1 ! 2) \<ge> 0x1000
         then (Some ErrNotTLS, s\<lparr>nextBlock := Some b1, rd := r1\<rparr>)
         else (case readFromUntil b1 r1
                      (recordHeaderLen + int_be (data b1 ! 3) (data b1 ! 4)) of
                 (Some e, b2, r2) \<Rightarrow> (Some e, s\<lparr>nextBlock := Some b2, rd := r2\<rparr>)
               | (None, b2, r2) \<Rightarrow>
                   (None, s\<lparr>nextBlock :=
                               snd (splitBlock b2
                                 (recordHeaderLen + int_be (data b1 ! 3) (data b1 ! 4))),
                             rd := r2,
                             hand := hand s @
                               subslice (data (fst (splitBlock b2
                                 (recordHeaderLen + int_be (data b1 ! 3) (data b1 ! 4)))))
                                 recordHeaderLen
                                 (recordHeaderLen + int_be (data b1 ! 3) (data b1 ! 4))\<rparr>)))"
  using assms
  by (simp add: readRecord_def Let_def split: option.split prod.split)

lemma readRecord_pending:
  assumes "readRecord s = (None, s')"
  shows "pending s' < pending s"
proof -
  define b0 where "b0 = (case nextBlock s of None \<Rightarrow> newBlock | Some b \<Rightarrow> b)"
  obtain e1 b1 r1 where r1: "readFromUntil b0 (rd s) recordHeaderLen = (e1, b1, r1)"
    by (metis prod_cases3)
  define n where "n = recordHeaderLen + int_be (data b1 ! 3) (data b1 ! 4)"
  obtain e2 b2 r2 where r2: "readFromUntil b1 r1 n = (e2, b2, r2)"
    by (metis prod_cases3)
  from assms have e: "e1 = None" "e2 = None"
    and s': "s' = s\<lparr>nextBlock := snd (splitBlock b2 n), rd := r2,
                 hand := hand s @ subslice (data (fst (splitBlock b2 n))) recordHeaderLen n\<rparr>"
    using r1 r2
    by (auto simp: readRecord_unfold [OF r1 [unfolded b0_def]] n_def
             split: option.splits if_splits)
  have len: "n \<le> length (data b2)"
    using r2 e readFromUntil_length by blast
  have "length (data b2) + rd_size r2 \<le> length (data b0) + rd_size (rd s)"
    using readFromUntil_pending [OF r1] readFromUntil_pending [OF r2] by simp
  moreover have "length (data b0) + rd_size (rd s) = pending s"
    by (simp add: b0_def pending_def newBlock_def split: option.split)
  moreover have "pending s' = length (data b2) - n + rd_size r2"
    using splitBlock_data [OF len] by (simp add: pending_def s' split: option.splits)
  moreover have "0 < n"
    by (simp add: n_def recordHeaderLen_def)
  ultimately show ?thesis
    using len by simp
qed

text \<open>The loop \<^verbatim>\<open>for hand.Len() < 4+n { readRecord() }\<close> of \<^verbatim>\<open>ReadClientHello\<close>; every
  record read takes at least its five header bytes from what is pending.\<close>

function readMore :: "rstate \<Rightarrow> nat \<Rightarrow> error option \<times> rstate" where
  "readMore s need =
     (if length (hand s) < need
      then (case readRecord s of
              (Some err, s') \<Rightarrow> (Some err, s')
            | (None, s') \<Rightarrow> readMore s' need)
      else (None, s))"
  by pat_completeness auto
termination
proof (relation "measure (\<lambda>(s, need). pending s)", goal_cases)
  case 1
  show ?case by simp
next
  case (2 s need x1 x2) 
  then have "readRecord s = (None, x2)"
    by simp
  then show ?case
    using readRecord_pending by simp
qed

declare readMore.simps [simp del]

section \<open>Package sni: the ClientHello decoder\<close>

record ClientHelloMsg =
  Raw :: bytes
  Versions :: uint16
  Random :: bytes
  SessionID :: bytes
  CipherSuites :: "uint16 list"
  CompressionMethods :: bytes
  NextProtoNeg :: bool
  ServerName :: bytes
  OcspStapling :: bool
  SupportedCurves :: "uint16 list"
  SupportedPoints :: bytes
  TicketSupported :: bool
  SessionTicket :: bytes

text \<open>\<^verbatim>\<open>new(ClientHelloMsg)\<close>: every field has its zero value.\<close>

definition new_ClientHelloMsg :: ClientHelloMsg where
  "new_ClientHelloMsg =
     \<lparr>Raw = [], Versions = 0, Random = [], SessionID = [], CipherSuites = [],
      CompressionMethods = [], NextProtoNeg = False, ServerName = [], OcspStapling = False,
      SupportedCurves = [], SupportedPoints = [], TicketSupported = False,
      SessionTicket = []\<rparr>"

text \<open>
  The loop \<^verbatim>\<open>for i := 0; i < numNames; i++\<close> of the server_name case, on the number of
  iterations left and the slice \<^verbatim>\<open>d\<close>. \<open>None\<close> is \<^verbatim>\<open>return false\<close>; the \<^verbatim>\<open>break\<close> (which
  leaves the \<^verbatim>\<open>for\<close> loop, the innermost statement it can leave) and the end of the loop
  both go on after the \<^verbatim>\<open>switch\<close> with the message as it then is.
\<close>

fun scanServerNames :: "nat \<Rightarrow> bytes \<Rightarrow> ClientHelloMsg \<Rightarrow> ClientHelloMsg option" where
  "scanServerNames 0 d m = Some m"
| "scanServerNames (Suc k) d m =
     (if length d < 3 then None
      else (let nameType = d ! 0;
                nameLen = int_be (d ! 1) (d ! 2);
                d = drop 3 d
            in if length d < nameLen then None
               else if nameType = 0 then Some (m\<lparr>ServerName := take nameLen d\<rparr>)
               else scanServerNames k (drop nameLen d) m))"

text \<open>The loop that fills \<^verbatim>\<open>m.SupportedCurves\<close>.\<close>

fun readCurves :: "nat \<Rightarrow> bytes \<Rightarrow> uint16 list" where
  "readCurves 0 d = []"
| "readCurves (Suc k) d = uint16_be (d ! 0) (d ! 1) # readCurves k (drop 2 d)"

text \<open>The \<^verbatim>\<open>switch extension\<close> of \<^verbatim>\<open>unmarshal\<close>, for one extension of declared length
  \<open>length'\<close> whose body starts \<open>d\<close> (\<open>d\<close> runs to the end of the message).\<close>

definition parseExtension ::
  "uint16 \<Rightarrow> nat \<Rightarrow> bytes \<Rightarrow> ClientHelloMsg \<Rightarrow> ClientHelloMsg option" where
  "parseExtension extension length' d m =
     (if extension = extensionServerName then
        (if length' < 2 then None
         else scanServerNames (int_be (d ! 0) (d ! 1)) (drop 2 d) m)
      else if extension = extensionNextProtoNeg then
        (if length' > 0 then None else Some (m\<lparr>NextProtoNeg := True\<rparr>))
      else if extension = extensionStatusRequest then
        (if length' < 1 then None
         else Some (if d ! 0 = statusTypeOCSP then m\<lparr>OcspStapling := True\<rparr> else m))
      else if extension = extensionSupportedCurves then
        (if length' < 2 then None
         else (let lVal = int_be (d ! 0) (d ! 1)
               in if lVal mod 2 \<noteq> 0 \<or> length' \<noteq> lVal + 2 then None
                  else Some (m\<lparr>SupportedCurves := readCurves (lVal div 2) (drop 2 d)\<rparr>)))
      else if extension = extensionSupportedPoints then
        (if length' < 1 then None
         else (let lVal = unat (d ! 0)
               in if length' \<noteq> lVal + 1 then None
                  else Some (m\<lparr>SupportedPoints :=
                               copy_bytes (replicate lVal 0) (drop 1 d)\<rparr>)))
      else if extension = extensionSessionTicket then
        Some (m\<lparr>TicketSupported := True, SessionTicket := take length' d\<rparr>)
      else Some m)"

text \<open>The loop \<^verbatim>\<open>for len(data) != 0\<close> over the extensions.\<close>

function parseExtensions :: "bytes \<Rightarrow> ClientHelloMsg \<Rightarrow> ClientHelloMsg option" where
  "parseExtensions d m =
     (if length d \<noteq> 0 then
        (if length d < 4 then None
         else (let extension = uint16_be (d ! 0) (d ! 1);
                   length' = int_be (d ! 2) (d ! 3);
                   d1 = drop 4 d
               in if length d1 < length' then None
                  else (case parseExtension extension length' d1 m of
                          None \<Rightarrow> None
                        | Some m' \<Rightarrow> parseExtensions (drop length' d1) m')))
      else Some m)"
  by pat_completeness auto
termination
  by (relation "measure (\<lambda>(d, m). length d)") auto

declare parseExtensions.simps [simp del]

text \<open>\<^verbatim>\<open>unmarshal\<close>, in the order of the source: the fixed fields and the session id, the
  cipher suites, the compression methods, the extensions block. \<open>None\<close> is
  \<^verbatim>\<open>return false\<close>.\<close>

definition unmarshalExtensions :: "ClientHelloMsg \<Rightarrow> bytes \<Rightarrow> ClientHelloMsg option" where
  "unmarshalExtensions m d =
     (let m = m\<lparr>NextProtoNeg := False, ServerName := [], OcspStapling := False,
                TicketSupported := False, SessionTicket := []\<rparr>
      in if length d = 0 then Some m
         else if length d < 2 then None
         else (let extensionsLength = int_be (d ! 0) (d ! 1);
                   d = drop 2 d
               in if extensionsLength \<noteq> length d then None
                  else parseExtensions d m))"

definition unmarshalCompressionMethods ::
  "ClientHelloMsg \<Rightarrow> bytes \<Rightarrow> ClientHelloMsg option" where
  "unmarshalCompressionMethods m d =
     (if length d < 1 then None
      else (let compressionMethodsLen = unat (d ! 0)
            in if length d < 1 + compressionMethodsLen then None
               else unmarshalExtensions
                      (m\<lparr>CompressionMethods := subslice d 1 (1 + compressionMethodsLen)\<rparr>)
                      (drop (1 + compressionMethodsLen) d)))"

definition unmarshalCipherSuites :: "ClientHelloMsg \<Rightarrow> bytes \<Rightarrow> ClientHelloMsg option" where
  "unmarshalCipherSuites m d =
     (if length d < 2 then None
      else (let cipherSuiteLen = int_be (d ! 0) (d ! 1)
            in if cipherSuiteLen mod 2 = 1 \<or> length d < 2 + cipherSuiteLen then None
               else (let numCipherSuites = cipherSuiteLen div 2
                     in unmarshalCompressionMethods
                          (m\<lparr>CipherSuites :=
                               map (\<lambda>i. uint16_be (d ! (2 + 2 * i)) (d ! (3 + 2 * i)))
                                 [0..<numCipherSuites]\<rparr>)
                          (drop (2 + cipherSuiteLen) d))))"

definition unmarshal :: "ClientHelloMsg \<Rightarrow> bytes \<Rightarrow> ClientHelloMsg option" where
  "unmarshal m d =
     (if length d < 42 then None
      else (let m = m\<lparr>Raw := d, Versions := uint16_be (d ! 4) (d ! 5),
                      Random := subslice d 6 38\<rparr>;
                sessionIDLen = unat (d ! 38)
            in if sessionIDLen > 32 \<or> length d < 39 + sessionIDLen then None
               else unmarshalCipherSuites
                      (m\<lparr>SessionID := subslice d 39 (39 + sessionIDLen)\<rparr>)
                      (drop (39 + sessionIDLen) d)))"

text \<open>\<^verbatim>\<open>ReadClientHello\<close> returns the message or the error; the reader is returned too,
  as the caller finds it afterwards.\<close>

definition ReadClientHello :: "reader \<Rightarrow> (error + ClientHelloMsg) \<times> reader" where
  "ReadClientHello r =
     (case readRecord \<lparr>nextBlock = None, hand = [], rd = r\<rparr> of
        (Some err, s) \<Rightarrow> (Inl err, rd s)
      | (None, s) \<Rightarrow>
          (let d = hand s
           in if length d < 4 then (Inl ErrNotTLS, rd s)
              else (let n = int24_be (d ! 1) (d ! 2) (d ! 3)
                    in case readMore s (4 + n) of
                         (Some err, s) \<Rightarrow> (Inl err, rd s)
                       | (None, s) \<Rightarrow>
                           (let d = take (4 + n) (hand s)
                            in if d ! 0 \<noteq> typeClientHello then (Inl ErrNotTLS, rd s)
                               else (case unmarshal new_ClientHelloMsg d of
                                       None \<Rightarrow> (Inl ErrNotTLS, rd s)
                                     | Some msg \<Rightarrow> (Inr msg, rd s))))))"

section \<open>Package tlsfrag: the world around the adapter\<close>

text \<open>
  The adapter acts on a \<^verbatim>\<open>net.Conn\<close>, on the global generator of \<^verbatim>\<open>math/rand\<close> and on the
  clock. The state of the three is one record:
  \<^item> \<open>sent\<close>: the byte slices the transport has taken, one entry for each \<^verbatim>\<open>conn.Write\<close>
    call, oldest first;
  \<^item> \<open>writeResults\<close>: how the coming \<^verbatim>\<open>conn.Write\<close> calls end: in full, or after \<open>n\<close>
    bytes with an error (after the list, every call succeeds). A call that returns no
    error has written all of its argument, as the contract of \<^verbatim>\<open>io.Writer\<close> demands;
  \<^item> \<open>readResults\<close>: what the coming \<^verbatim>\<open>conn.Read\<close> calls deliver;
  \<^item> \<open>rng\<close>: the raw values the generator will produce, \<open>rng 0\<close> first;
  \<^item> \<open>slept\<close>: the arguments of the \<^verbatim>\<open>time.Sleep\<close> calls so far, in milliseconds.
\<close>

datatype write_result = WriteOk | WriteFails nat error

record World =
  sent :: "bytes list"
  writeResults :: "write_result list"
  readResults :: "(bytes \<times> error option) list"
  rng :: "nat \<Rightarrow> nat"
  slept :: "int list"

definition conn_Write :: "World \<Rightarrow> bytes \<Rightarrow> (int \<times> error option) \<times> World" where
  "conn_Write w p =
     (case writeResults w of
        [] \<Rightarrow> ((int (length p), None), w\<lparr>sent := sent w @ [p]\<rparr>)
      | WriteOk # rest \<Rightarrow>
          ((int (length p), None), w\<lparr>sent := sent w @ [p], writeResults := rest\<rparr>)
      | WriteFails n e # rest \<Rightarrow>
          ((int (min n (length p)), Some e),
           w\<lparr>sent := sent w @ [take n p], writeResults := rest\<rparr>))"

text \<open>\<^verbatim>\<open>conn.Read\<close> into a buffer of \<open>n\<close> bytes: the bytes stored and the error.\<close>

definition conn_Read :: "World \<Rightarrow> nat \<Rightarrow> (bytes \<times> error option) \<times> World" where
  "conn_Read w n =
     (case readResults w of
        [] \<Rightarrow> (([], Some ErrEOF), w)
      | (p, e) # rest \<Rightarrow> ((take n p, e), w\<lparr>readResults := rest\<rparr>))"

text \<open>\<^verbatim>\<open>rand.Intn(n)\<close> for \<open>n > 0\<close> (it panics otherwise; both calls are guarded): a value
  of the half-open interval from 0 to \<open>n\<close>, here the next raw value reduced modulo \<open>n\<close>.\<close>

definition rand_Intn :: "World \<Rightarrow> int \<Rightarrow> int \<times> World" where
  "rand_Intn w n = (int (rng w 0 mod nat n), w\<lparr>rng := (\<lambda>k. rng w (Suc k))\<rparr>)"

definition time_Sleep :: "World \<Rightarrow> int \<Rightarrow> World" where
  "time_Sleep w d = w\<lparr>slept := slept w @ [d]\<rparr>"

text \<open>\<^verbatim>\<open>bytes.Index(b, sep)\<close> of the standard library: the index of the first instance
  of \<^verbatim>\<open>sep\<close> in \<^verbatim>\<open>b\<close>, or -1 if there is none.\<close>

fun bytes_Index :: "bytes \<Rightarrow> bytes \<Rightarrow> int" where
  "bytes_Index [] sep = (if sep = [] then 0 else - 1)"
| "bytes_Index (x # xs) sep =
     (if take (length sep) (x # xs) = sep then 0
      else (let i = bytes_Index xs sep in if i = - 1 then - 1 else i + 1))"

section \<open>Package tlsfrag: the adapter\<close>

record Adapter =
  isFirstWrite :: bool
  BSL :: "int \<times> int"
  SL :: "int \<times> int"
  ASL :: "int \<times> int"
  Delay :: "int \<times> int"

definition New :: "int \<times> int \<Rightarrow> int \<times> int \<Rightarrow> int \<times> int \<Rightarrow> int \<times> int \<Rightarrow> Adapter" where
  "New bsl sl asl delay =
     \<lparr>isFirstWrite = True, BSL = bsl, SL = sl, ASL = asl, Delay = delay\<rparr>"

text \<open>How a call ends when it ends: it returns a count and an error (\<open>None\<close> is \<^verbatim>\<open>nil\<close>), or
  it panics. A call that never ends has no outcome: the functions below that contain the
  fragmentation loop return an \<open>option\<close>, and \<open>None\<close> is the call that does not return.\<close>

datatype outcome = Panicked | Returned int "error option"

definition returned :: "(int \<times> error option) \<times> World \<Rightarrow> outcome \<times> World" where
  "returned r = (Returned (fst (fst r)) (snd (fst r)), snd r)"

text \<open>The fragment length of one iteration of \<^verbatim>\<open>writeFragments\<close>: drawn, then cut to the
  \<open>remaining\<close> bytes.\<close>

definition drawFragmentLength :: "World \<Rightarrow> int \<Rightarrow> int \<Rightarrow> int \<Rightarrow> int \<times> World" where
  "drawFragmentLength w lengthMin lengthMax remaining =
     (let (fragmentLength, w') =
            (if lengthMax - lengthMin > 0
             then (let (r, w') = rand_Intn w (lengthMax - lengthMin) in (r + lengthMin, w'))
             else (lengthMin, w))
      in (if fragmentLength > remaining then remaining else fragmentLength, w'))"

definition drawDelay :: "Adapter \<Rightarrow> World \<Rightarrow> int \<times> World" where
  "drawDelay a w =
     (if snd (Delay a) - fst (Delay a) > 0
      then (let (r, w') = rand_Intn w (snd (Delay a) - fst (Delay a))
            in (r + fst (Delay a), w'))
      else (fst (Delay a), w))"

text \<open>The loop \<^verbatim>\<open>for position < len(b)\<close> of \<^verbatim>\<open>writeFragments\<close>. The slice expression
  \<^verbatim>\<open>b[position : position+fragmentLength]\<close> panics when \<^verbatim>\<open>fragmentLength\<close> is negative.\<close>

partial_function (option) writeFragments_loop ::
  "Adapter \<Rightarrow> bytes \<Rightarrow> int \<Rightarrow> int \<Rightarrow> nat \<Rightarrow> int \<Rightarrow> World \<Rightarrow> (outcome \<times> World) option" where
  "writeFragments_loop a b lengthMin lengthMax position nw w =
     (if position < length b then
        (let (fragmentLength, w1) =
               drawFragmentLength w lengthMin lengthMax (int (length b) - int position);
             (delay, w2) = drawDelay a w1
         in if fragmentLength < 0 then Some (Panicked, w2)
            else (case conn_Write w2 (subslice b position (position + nat fragmentLength)) of
                    ((tnw, Some ew), w3) \<Rightarrow> Some (Returned 0 (Some ew), w3)
                  | ((tnw, None), w3) \<Rightarrow>
                      writeFragments_loop a b lengthMin lengthMax
                        (position + nat fragmentLength) (nw + tnw)
                        (if delay > 0 then time_Sleep w3 delay else w3)))
      else Some (Returned nw None, w))"

declare writeFragments_loop.simps [code]

definition writeFragments ::
  "Adapter \<Rightarrow> bytes \<Rightarrow> nat \<Rightarrow> World \<Rightarrow> (outcome \<times> World) option" where
  "writeFragments a b index w =
     (let (lengthMin, lengthMax) =
            (if index = 0 then BSL a else if index = 1 then SL a else ASL a)
      in writeFragments_loop a b lengthMin lengthMax 0 0 w)"

text \<open>The loop \<^verbatim>\<open>for i := 0; i < 3; i++\<close> of \<^verbatim>\<open>fragmentAndWriteFirstPacket\<close>, on the chunks
  still to send, the index \<open>i\<close> of the first of them and the count \<^verbatim>\<open>nw\<close>. The \<^verbatim>\<open>ew\<close>
  returned at the end is the outer variable, which is \<^verbatim>\<open>nil\<close>.\<close>

fun writeChunks ::
  "Adapter \<Rightarrow> bytes list \<Rightarrow> nat \<Rightarrow> int \<Rightarrow> World \<Rightarrow> (outcome \<times> World) option" where
  "writeChunks a [] i nw w = Some (Returned nw None, w)"
| "writeChunks a (c # cs) i nw w =
     (case writeFragments a c i w of
        None \<Rightarrow> None
      | Some (Panicked, w') \<Rightarrow> Some (Panicked, w')
      | Some (Returned tnw (Some ew), w') \<Rightarrow> Some (Returned 0 (Some ew), w')
      | Some (Returned tnw None, w') \<Rightarrow> writeChunks a cs (i + 1) (nw + tnw) w')"

definition fragmentAndWriteFirstPacket ::
  "Adapter \<Rightarrow> bytes \<Rightarrow> World \<Rightarrow> (outcome \<times> World) option" where
  "fragmentAndWriteFirstPacket a b w =
     (case fst (ReadClientHello (bytes_NewReader b)) of
        Inl err \<Rightarrow> Some (returned (conn_Write w b))
      | Inr hello \<Rightarrow>
          (let helloPacketSni = ServerName hello;
               index = bytes_Index b helloPacketSni
           in if index = - 1 then Some (returned (conn_Write w b))
              else (let index = nat index;
                        chunks0 = copy_bytes (replicate index 0) (subslice b 0 index);
                        chunks1 = copy_bytes (replicate (length helloPacketSni) 0)
                                    (subslice b index (index + length helloPacketSni));
                        chunks2 = copy_bytes
                                    (replicate (length b - index - length helloPacketSni) 0)
                                    (drop (index + length helloPacketSni) b)
                    in writeChunks a [chunks0, chunks1, chunks2] 0 0 w)))"

text \<open>\<^verbatim>\<open>Write\<close> clears \<^verbatim>\<open>isFirstWrite\<close> before it calls
  \<^verbatim>\<open>fragmentAndWriteFirstPacket\<close>, so the adapter after the call is known also when the
  call does not return.\<close>

definition Write :: "Adapter \<Rightarrow> bytes \<Rightarrow> World \<Rightarrow> Adapter \<times> (outcome \<times> World) option" where
  "Write a b w =
     (if isFirstWrite a
      then (let a = a\<lparr>isFirstWrite := False\<rparr> in (a, fragmentAndWriteFirstPacket a b w))
      else (a, Some (returned (conn_Write w b))))"

text \<open>\<^verbatim>\<open>Read\<close> into a buffer of \<open>n\<close> bytes: the count and the error returned, the bytes
  that the transport has stored in the buffer, and the world.\<close>

definition Read :: "Adapter \<Rightarrow> nat \<Rightarrow> World \<Rightarrow> ((int \<times> error option) \<times> bytes) \<times> World" where
  "Read a n w =
     (let ((p, err), w') = conn_Read w n;
          bytesRead = int (length p)
      in case err of
           Some e \<Rightarrow> (((0, Some e), p), w')
         | None \<Rightarrow> (((bytesRead, None), p), w'))"

section \<open>Inputs for the examples\<close>

definition world0 :: World where
  "world0 = \<lparr>sent = [], writeResults = [], readResults = [], rng = (\<lambda>k. 0), slept = []\<rparr>"

definition worldReadErr :: World where
  "worldReadErr = world0\<lparr>readResults := [([1, 2, 3], Some ErrEOF)]\<rparr>"

text \<open>The next \<^verbatim>\<open>conn.Write\<close> call ends without an error.\<close>

definition nextWriteSucceeds :: "World \<Rightarrow> bool" where
  "nextWriteSucceeds w = (case writeResults w of WriteFails n e # rest \<Rightarrow> False | _ \<Rightarrow> True)"

section \<open>The draws of a fragment length and of a delay\<close>

lemma rand_Intn_range: "0 < n \<Longrightarrow> 0 \<le> fst (rand_Intn w n) \<and> fst (rand_Intn w n) < n"
proof -
  assume n: "0 < n"
  then have "0 < nat n"
    by simp
  then have "rng w 0 mod nat n < nat n"
    by (rule mod_less_divisor)
  then have "int (rng w 0 mod nat n) < n"
    using n by linarith
  then show ?thesis
    by (simp add: rand_Intn_def)
qed

lemma rand_Intn_onto:
  assumes "0 \<le> v" "v < n"
  shows "fst (rand_Intn (world0\<lparr>rng := (\<lambda>k. nat v)\<rparr>) n) = v"
  using assms by (simp add: rand_Intn_def)

text \<open>
  Claim C8. For a size range and a delay range with \<open>min < max\<close> the spec has every
  value of the closed interval from \<open>min\<close> to \<open>max\<close> as a possible draw. The code draws
  \<^verbatim>\<open>rand.Intn(max-min) + min\<close>: the values a draw can take (over all states of the
  generator) are exactly those with \<open>min \<le> v < max\<close>, so \<open>max\<close> itself is never drawn.
  (The fragment length is taken where at least \<open>lengthMax\<close> bytes remain, so that the cut
  to the remaining bytes does not interfere.)
\<close>

theorem draw_excludes_max:
  assumes "lengthMin < lengthMax" and "lengthMax \<le> remaining"
    and "fst (Delay a) < snd (Delay a)"
  shows "((\<exists>w. fst (drawFragmentLength w lengthMin lengthMax remaining) = v)
            = (lengthMin \<le> v \<and> v < lengthMax))
       \<and> ((\<exists>w. fst (drawDelay a w) = v) = (fst (Delay a) \<le> v \<and> v < snd (Delay a)))"
proof -
  have frag: "fst (drawFragmentLength w lengthMin lengthMax remaining)
                = fst (rand_Intn w (lengthMax - lengthMin)) + lengthMin" for w
    using assms(1,2) rand_Intn_range [of "lengthMax - lengthMin" w]
    by (simp add: drawFragmentLength_def split_beta)
  have del: "fst (drawDelay a w) = fst (rand_Intn w (snd (Delay a) - fst (Delay a))) + fst (Delay a)" for w
    using assms(3) by (simp add: drawDelay_def split_beta)
  have 1: "(\<exists>w. fst (rand_Intn w n) + lo = v) = (lo \<le> v \<and> v < lo + n)" if "0 < n" for n lo
  proof
    assume "\<exists>w. fst (rand_Intn w n) + lo = v"
    then show "lo \<le> v \<and> v < lo + n"
      using rand_Intn_range [OF that] by force
  next
    assume "lo \<le> v \<and> v < lo + n"
    then have "fst (rand_Intn (world0\<lparr>rng := (\<lambda>k. nat (v - lo))\<rparr>) n) + lo = v"
      using rand_Intn_onto [of "v - lo" n] by simp
    then show "\<exists>w. fst (rand_Intn w n) + lo = v" ..
  qed
  show ?thesis
    using 1 [of "lengthMax - lengthMin" lengthMin] 1 [of "snd (Delay a) - fst (Delay a)" "fst (Delay a)"] assms
    by (simp add: frag del)
qed

theorem draw_excludes_max_witness:
  "(\<exists>w. fst (drawFragmentLength w 1 2 10) = 1) \<and> \<not> (\<exists>w. fst (drawFragmentLength w 1 2 10) = 2)
   \<and> (\<exists>w. fst (drawDelay (New (2000, 2000) (1, 2) (1, 2) (10, 20)) w) = 19)
   \<and> \<not> (\<exists>w. fst (drawDelay (New (2000, 2000) (1, 2) (1, 2) (10, 20)) w) = 20)"
  using draw_excludes_max [of 1 2 10 "New (2000, 2000) (1, 2) (1, 2) (10, 20)" 1]
    draw_excludes_max [of 1 2 10 "New (2000, 2000) (1, 2) (1, 2) (10, 20)" 2]
    draw_excludes_max [of 1 2 10 "New (2000, 2000) (1, 2) (1, 2) (10, 20)" 19]
    draw_excludes_max [of 1 2 10 "New (2000, 2000) (1, 2) (1, 2) (10, 20)" 20]
  by (simp add: New_def)

section \<open>Read\<close>

text \<open>
  Claim C9, as amended. \<^verbatim>\<open>Read\<close> makes one \<^verbatim>\<open>conn.Read\<close> call on the caller's buffer and
  returns the transport's error unchanged; the count it returns is the transport's count
  when that error is \<^verbatim>\<open>nil\<close> and 0 when it is not; the bytes stored in the buffer and the
  state of the world are those of the transport's read; nothing depends on the adapter's
  state, so the first-write flag has no influence.
\<close>

theorem Read_passthrough:
  "fst (fst (Read a n w)) =
     (if snd (fst (conn_Read w n)) = None then int (length (fst (fst (conn_Read w n)))) else 0,
      snd (fst (conn_Read w n)))
   \<and> snd (fst (Read a n w)) = fst (fst (conn_Read w n))
   \<and> snd (Read a n w) = snd (conn_Read w n)
   \<and> Read a' n w = Read a n w"
  by (simp add: Read_def split_beta Let_def split: option.split)

theorem Read_passthrough_witness:
  "fst (fst (Read (New (1, 1) (1, 1) (1, 1) (0, 0)) 10 worldReadErr)) = (0, Some ErrEOF)
   \<and> snd (fst (Read (New (1, 1) (1, 1) (1, 1) (0, 0)) 10 worldReadErr)) = [1, 2, 3]
   \<and> fst (fst (Read (New (1, 1) (1, 1) (1, 1) (0, 0)) 2 (worldReadErr\<lparr>readResults := [([7, 8, 9], None)]\<rparr>)))
       = (2, None)"
  using Read_passthrough [of "New (1, 1) (1, 1) (1, 1) (0, 0)" 10 worldReadErr]
    Read_passthrough [of "New (1, 1) (1, 1) (1, 1) (0, 0)" 2 "worldReadErr\<lparr>readResults := [([7, 8, 9], None)]\<rparr>"]
  by (simp add: conn_Read_def worldReadErr_def world0_def)

text \<open>The claim as the spec states it, that count and error are always the transport's,
  fails for a read that delivers three bytes together with \<^verbatim>\<open>io.EOF\<close>: \<^verbatim>\<open>Read\<close> returns
  the count 0.\<close>

theorem Read_drops_count_counterexample:
  "\<not> (\<forall>a n w. fst (fst (Read a n w)) =
         (int (length (fst (fst (conn_Read w n)))), snd (fst (conn_Read w n))))"
proof
  assume "\<forall>a n w. fst (fst (Read a n w)) =
         (int (length (fst (fst (conn_Read w n)))), snd (fst (conn_Read w n)))"
  then have "fst (fst (Read (New (1, 1) (1, 1) (1, 1) (0, 0)) 10 worldReadErr)) =
         (int (length (fst (fst (conn_Read worldReadErr 10)))), snd (fst (conn_Read worldReadErr 10)))"
    by blast
  then show False
    by (simp add: Read_def conn_Read_def worldReadErr_def world0_def)
qed

section \<open>The first-write flag\<close>

lemma conn_Write_ok:
  "nextWriteSucceeds w \<Longrightarrow>
     conn_Write w p = ((int (length p), None), w\<lparr>sent := sent w @ [p], writeResults := tl (writeResults w)\<rparr>)"
  by (auto simp: conn_Write_def nextWriteSucceeds_def split: list.splits write_result.splits)

text \<open>
  Claim C2. A new adapter has the flag set. Whatever the adapter, the bytes and the world,
  the adapter after a \<^verbatim>\<open>Write\<close> is the adapter before it with the flag cleared: this does
  not depend on what the call does to the transport, nor on whether it returns. Every
  \<^verbatim>\<open>Write\<close> on an adapter that has written before leaves the adapter as it is and is one
  \<^verbatim>\<open>conn.Write\<close> call on the caller's bytes, whose result it returns: no parsing, no
  fragments; when the transport takes the write, what it has received is the caller's
  bytes, as one entry.
\<close>

theorem Write_first_write_flag:
  "isFirstWrite (New bsl sl asl delay)
   \<and> fst (Write a b w) = a\<lparr>isFirstWrite := False\<rparr>
   \<and> fst (Write (fst (Write a b w)) b' w') = fst (Write a b w)
   \<and> snd (Write (fst (Write a b w)) b' w') = Some (returned (conn_Write w' b'))
   \<and> (\<not> isFirstWrite a \<longrightarrow> Write a b w = (a, Some (returned (conn_Write w b))))
   \<and> (nextWriteSucceeds w' \<longrightarrow>
        snd (Write (fst (Write a b w)) b' w')
          = Some (Returned (int (length b')) None,
                  w'\<lparr>sent := sent w' @ [b'], writeResults := tl (writeResults w')\<rparr>))"
proof -
  have 1: "fst (Write a b w) = a\<lparr>isFirstWrite := False\<rparr>" for a b w
    by (cases "isFirstWrite a") (simp_all add: Write_def Let_def)
  have 2: "\<not> isFirstWrite a \<Longrightarrow> Write a b w = (a, Some (returned (conn_Write w b)))" for a b w
    by (simp add: Write_def)
  have 3: "Write (a\<lparr>isFirstWrite := False\<rparr>) b' w' = (a\<lparr>isFirstWrite := False\<rparr>, Some (returned (conn_Write w' b')))"
    by (simp add: Write_def)
  show ?thesis
    by (simp add: 1 2 3 New_def conn_Write_ok returned_def)
qed

theorem Write_first_write_flag_witness:
  "isFirstWrite (New (2000, 2000) (1, 2) (1, 2) (10, 20))
   \<and> \<not> isFirstWrite (fst (Write (New (2000, 2000) (1, 2) (1, 2) (10, 20)) [1, 2, 3] world0))
   \<and> snd (Write (fst (Write (New (2000, 2000) (1, 2) (1, 2) (10, 20)) [1, 2, 3] world0)) [4, 5] world0)
       = Some (Returned 2 None, world0\<lparr>sent := [[4, 5]]\<rparr>)"
proof -
  let ?a = "New (2000, 2000) (1, 2) (1, 2) (10, 20)"
  have ok: "nextWriteSucceeds world0"
    by (simp add: nextWriteSucceeds_def world0_def)
  from Write_first_write_flag [of "(2000, 2000)" "(1, 2)" "(1, 2)" "(10, 20)" ?a "[1, 2, 3]"
      world0 "[4, 5]" world0] ok
  have 1: "isFirstWrite ?a"
    and 2: "fst (Write ?a [1, 2, 3] world0) = ?a\<lparr>isFirstWrite := False\<rparr>"
    and 3: "snd (Write (fst (Write ?a [1, 2, 3] world0)) [4, 5] world0)
             = Some (Returned (int (length [4, 5 :: byte])) None,
                     world0\<lparr>sent := sent world0 @ [[4, 5]],
                            writeResults := tl (writeResults world0)\<rparr>)"
    by blast+
  from 2 have "\<not> isFirstWrite (fst (Write ?a [1, 2, 3] world0))"
    by simp
  moreover from 3 have "snd (Write (fst (Write ?a [1, 2, 3] world0)) [4, 5] world0)
       = Some (Returned 2 None, world0\<lparr>sent := [[4, 5]]\<rparr>)"
    by (simp add: world0_def)
  ultimately show ?thesis
    using 1 by blast
qed

section \<open>The fragmentation loop\<close>

text \<open>Every coming \<^verbatim>\<open>conn.Write\<close> call ends without an error.\<close>

definition allWritesSucceed :: "World \<Rightarrow> bool" where
  "allWritesSucceed w = list_all (\<lambda>r. r = WriteOk) (writeResults w)"

lemma rand_Intn_world [simp]:
  "sent (snd (rand_Intn w n)) = sent w" "writeResults (snd (rand_Intn w n)) = writeResults w"
  by (simp_all add: rand_Intn_def)

lemma drawFragmentLength_world [simp]:
  "sent (snd (drawFragmentLength w mn mx rem)) = sent w"
  "writeResults (snd (drawFragmentLength w mn mx rem)) = writeResults w"
  by (simp_all add: drawFragmentLength_def split_beta Let_def)

lemma drawDelay_world [simp]:
  "sent (snd (drawDelay a w)) = sent w"
  "writeResults (snd (drawDelay a w)) = writeResults w"
  by (simp_all add: drawDelay_def split_beta Let_def)

lemma time_Sleep_world [simp]:
  "sent (time_Sleep w d) = sent w" "writeResults (time_Sleep w d) = writeResults w"
  by (simp_all add: time_Sleep_def)

lemma drawFragmentLength_le: "fst (drawFragmentLength w mn mx rem) \<le> rem"
  by (simp add: drawFragmentLength_def split_beta Let_def)

lemma drawFragmentLength_ge:
  assumes "lo \<le> mn" "lo \<le> rem"
  shows "lo \<le> fst (drawFragmentLength w mn mx rem)"
proof (cases "mx - mn > 0")
  case True
  then have "0 \<le> fst (rand_Intn w (mx - mn))"
    using rand_Intn_range by blast
  with assms True show ?thesis
    by (simp add: drawFragmentLength_def split_beta Let_def)
next
  case False
  with assms show ?thesis
    by (simp add: drawFragmentLength_def split_beta Let_def)
qed

lemma drawFragmentLength_zero:
  "mx \<le> 0 \<Longrightarrow> 0 < rem \<Longrightarrow> drawFragmentLength w 0 mx rem = (0, w)"
  by (simp add: drawFragmentLength_def)

lemma loop_done:
  "\<not> position < length b \<Longrightarrow>
     writeFragments_loop a b mn mx position nw w = Some (Returned nw None, w)"
  by (subst writeFragments_loop.simps) simp

lemma loop_step:
  assumes "position < length b"
    and "d = drawFragmentLength w mn mx (int (length b) - int position)"
    and "dl = drawDelay a (snd d)"
    and "r = conn_Write (snd dl) (subslice b position (position + nat (fst d)))"
    and "w4 = (if fst dl > 0 then time_Sleep (snd r) (fst dl) else snd r)"
  shows "writeFragments_loop a b mn mx position nw w =
       (if fst d < 0 then Some (Panicked, snd dl)
        else (case snd (fst r) of
                Some ew \<Rightarrow> Some (Returned 0 (Some ew), snd r)
              | None \<Rightarrow>
                  writeFragments_loop a b mn mx (position + nat (fst d)) (nw + fst (fst r)) w4))"
  by (subst writeFragments_loop.simps)
     (simp add: assms split_beta Let_def split: option.split)

lemma conn_Write_world:
  "length (sent (snd (conn_Write w p))) = Suc (length (sent w))"
  "writeResults (snd (conn_Write w p)) = tl (writeResults w)"
  by (auto simp: conn_Write_def split: list.splits write_result.splits)

lemma conn_Write_succeed:
  "allWritesSucceed w \<Longrightarrow>
     fst (conn_Write w p) = (int (length p), None) \<and>
     sent (snd (conn_Write w p)) = sent w @ [p] \<and>
     allWritesSucceed (snd (conn_Write w p))"
  by (auto simp: conn_Write_def allWritesSucceed_def split: list.splits write_result.splits)

lemma loop_returns:
  assumes "1 \<le> mn"
  shows "\<exists>r w'. writeFragments_loop a b mn mx position nw w = Some (r, w')"
proof (induction "length b - position" arbitrary: position nw w rule: less_induct)
  case less
  show ?case
  proof (cases "position < length b")
    case False
    then show ?thesis by (simp add: loop_done)
  next
    case True
    define d where "d = drawFragmentLength w mn mx (int (length b) - int position)"
    define dl where "dl = drawDelay a (snd d)"
    define r where "r = conn_Write (snd dl) (subslice b position (position + nat (fst d)))"
    define w4 where "w4 = (if fst dl > 0 then time_Sleep (snd r) (fst dl) else snd r)"
    note step = loop_step [OF True d_def dl_def r_def w4_def]
    have pos: "1 \<le> fst d"
      unfolding d_def using assms True by (intro drawFragmentLength_ge) auto
    show ?thesis
    proof (cases "snd (fst r)")
      case (Some ew)
      with pos show ?thesis
        by (simp add: step)
    next
      case None
      have lt: "length b - (position + nat (fst d)) < length b - position"
        using True pos by linarith
      from less [OF lt] None pos show ?thesis
        by (simp add: step)
    qed
  qed
qed

text \<open>Induction over the iterations of a run of the loop that returns, by the way each
  iteration ends.\<close>

lemma loop_induct [consumes 1, case_names finished panic failed again]:
  assumes "writeFragments_loop a b mn mx position nw w = Some y"
    and finished: "\<And>a b mn mx position nw w. \<not> position < length b \<Longrightarrow>
        P a b mn mx position nw w (Returned nw None, w)"
    and panic: "\<And>a b mn mx position nw w d dl. position < length b \<Longrightarrow>
        d = drawFragmentLength w mn mx (int (length b) - int position) \<Longrightarrow>
        dl = drawDelay a (snd d) \<Longrightarrow> fst d < 0 \<Longrightarrow>
        P a b mn mx position nw w (Panicked, snd dl)"
    and failed: "\<And>a b mn mx position nw w d dl r ew. position < length b \<Longrightarrow>
        d = drawFragmentLength w mn mx (int (length b) - int position) \<Longrightarrow>
        dl = drawDelay a (snd d) \<Longrightarrow>
        r = conn_Write (snd dl) (subslice b position (position + nat (fst d))) \<Longrightarrow>
        \<not> fst d < 0 \<Longrightarrow> snd (fst r) = Some ew \<Longrightarrow>
        P a b mn mx position nw w (Returned 0 (Some ew), snd r)"
    and again: "\<And>a b mn mx position nw w d dl r w4 y. position < length b \<Longrightarrow>
        d = drawFragmentLength w mn mx (int (length b) - int position) \<Longrightarrow>
        dl = drawDelay a (snd d) \<Longrightarrow>
        r = conn_Write (snd dl) (subslice b position (position + nat (fst d))) \<Longrightarrow>
        w4 = (if fst dl > 0 then time_Sleep (snd r) (fst dl) else snd r) \<Longrightarrow>
        \<not> fst d < 0 \<Longrightarrow> snd (fst r) = None \<Longrightarrow>
        P a b mn mx (position + nat (fst d)) (nw + fst (fst r)) w4 y \<Longrightarrow>
        P a b mn mx position nw w y"
  shows "P a b mn mx position nw w y"
proof (rule writeFragments_loop.raw_induct [where P = P, OF _ assms(1)], goal_cases)
  case (1 f a b mn mx position nw w y)
  note IH = 1(1) and eq = 1(2)
  define d where "d = drawFragmentLength w mn mx (int (length b) - int position)"
  define dl where "dl = drawDelay a (snd d)"
  define r where "r = conn_Write (snd dl) (subslice b position (position + nat (fst d)))"
  define w4 where "w4 = (if fst dl > 0 then time_Sleep (snd r) (fst dl) else snd r)"
  show ?case
  proof (cases "position < length b")
    case False
    with eq have "y = (Returned nw None, w)" by simp
    with finished [OF False] show ?thesis by simp
  next
    case True
    show ?thesis
    proof (cases "fst d < 0")
      case neg: True
      with eq True have "y = (Panicked, snd dl)"
        by (simp add: split_beta Let_def d_def dl_def)
      with panic [OF True d_def dl_def neg] show ?thesis by simp
    next
      case nonneg: False
      show ?thesis
      proof (cases "snd (fst r)")
        case (Some ew)
        with eq True nonneg have "y = (Returned 0 (Some ew), snd r)"
          by (simp add: split_beta Let_def d_def dl_def r_def)
        with failed [OF True d_def dl_def r_def nonneg Some] show ?thesis by simp
      next
        case None
        with eq True nonneg
        have "f a b mn mx (position + nat (fst d)) (nw + fst (fst r)) w4 = Some y"
          by (simp add: split_beta Let_def d_def dl_def r_def w4_def split: if_splits)
        from again [OF True d_def dl_def r_def w4_def nonneg None IH [OF this]]
        show ?thesis .
      qed
    qed
  qed
qed

text \<open>A run that draws only the length 0 on data that is not yet consumed, over a
  transport that takes every write, does not return.\<close>

lemma loop_zero_not_Some:
  assumes "writeFragments_loop a b mn mx position nw w = Some y"
  shows "\<not> (position < length b \<and> mn = 0 \<and> mx \<le> 0 \<and> allWritesSucceed w)"
  using assms
proof (induction rule: loop_induct)
  case (again a b mn mx position nw w d dl r w4 y)
  show ?case
  proof
    assume reg: "position < length b \<and> mn = 0 \<and> mx \<le> 0 \<and> allWritesSucceed w"
    then have d: "d = (0, w)"
      using again(2) by (simp add: drawFragmentLength_zero)
    have "allWritesSucceed (snd dl)"
      using reg d again(3) by (simp add: allWritesSucceed_def)
    then have "allWritesSucceed (snd r)"
      using again(4) conn_Write_succeed by blast
    then have "allWritesSucceed w4"
      using again(5) by (simp add: allWritesSucceed_def)
    with reg d again(8) show False
      by simp
  qed
qed (auto simp: drawFragmentLength_zero allWritesSucceed_def conn_Write_def
       split: list.splits write_result.splits)

lemma loop_zero_diverges:
  assumes "position < length b" and "mx \<le> 0" and "allWritesSucceed w"
  shows "writeFragments_loop a b 0 mx position nw w = None"
proof (cases "writeFragments_loop a b 0 mx position nw w")
  case (Some y)
  from loop_zero_not_Some [OF this] assms show ?thesis by simp
qed simp

lemma loop_no_panic:
  assumes "writeFragments_loop a b mn mx position nw w = Some y" and "0 \<le> mn"
  shows "fst y \<noteq> Panicked"
  using assms
proof (induction rule: loop_induct)
  case (panic a b mn mx position nw w d dl)
  have "0 \<le> fst d"
    unfolding panic(2) using panic(1,5) by (intro drawFragmentLength_ge) auto
  with panic show ?case by simp
qed auto

lemma subslice_fragment:
  assumes "0 \<le> fl" "fl \<le> int (length b) - int position"
  shows "subslice b position (position + nat fl) = take (nat fl) (drop position b)"
    and "length (subslice b position (position + nat fl)) = nat fl"
  using assms by (auto simp: subslice_def)

lemma loop_roundtrip:
  assumes "writeFragments_loop a b mn mx position nw w = Some y"
  shows "allWritesSucceed w \<longrightarrow> fst y \<noteq> Panicked \<longrightarrow>
           fst y = Returned (nw + int (length b - position)) None \<and>
           (\<exists>ws. sent (snd y) = sent w @ ws \<and> concat ws = drop position b) \<and>
           allWritesSucceed (snd y)"
  using assms
proof (induction rule: loop_induct)
  case (finished a b mn mx position nw w)
  then show ?case by simp
next
  case (panic a b mn mx position nw w d dl)
  then show ?case by simp
next
  case (failed a b mn mx position nw w d dl r ew)
  show ?case
  proof (intro impI)
    assume "allWritesSucceed w"
    then have "allWritesSucceed (snd dl)"
      using failed(2,3) by (simp add: allWritesSucceed_def)
    then have "snd (fst r) = None"
      using failed(4) conn_Write_succeed [of "snd dl"] by simp
    with failed(6) show "fst (Returned 0 (Some ew), snd r) =
        Returned (nw + int (length b - position)) None \<and>
        (\<exists>ws. sent (snd (Returned 0 (Some ew), snd r)) = sent w @ ws \<and>
          concat ws = drop position b) \<and>
        allWritesSucceed (snd (Returned 0 (Some ew), snd r))"
      by simp
  qed
next
  case (again a b mn mx position nw w d dl r w4 y)
  let ?frag = "subslice b position (position + nat (fst d))"
  show ?case
  proof (intro impI)
    assume ok: "allWritesSucceed w" and np: "fst y \<noteq> Panicked"
    have fl: "0 \<le> fst d" "fst d \<le> int (length b) - int position"
      using again(6) drawFragmentLength_le [of w mn mx "int (length b) - int position"]
      by (simp_all add: again(2))
    have "allWritesSucceed (snd dl)"
      using ok again(2,3) by (simp add: allWritesSucceed_def)
    from conn_Write_succeed [OF this, of ?frag]
    have r: "fst r = (int (length ?frag), None)" "sent (snd r) = sent w @ [?frag]"
      "allWritesSucceed (snd r)"
      using again(2,3,4) by simp_all
    have w4: "allWritesSucceed w4" "sent w4 = sent w @ [?frag]"
      using r again(5) by (simp_all add: allWritesSucceed_def)
    from again(8) [rule_format, OF w4(1) np]
    obtain ws where y: "fst y = Returned (nw + fst (fst r) + int (length b - (position + nat (fst d)))) None"
      "sent (snd y) = sent w4 @ ws" "concat ws = drop (position + nat (fst d)) b"
      "allWritesSucceed (snd y)"
      by (elim conjE exE)
    have "fst y = Returned (nw + int (length b - position)) None"
      using y(1) r(1) fl again(1) by (simp add: subslice_fragment)
    moreover have "sent (snd y) = sent w @ (?frag # ws)"
      using y(2) w4(2) by simp
    moreover have "concat (?frag # ws) = drop position b"
    proof -
      have "take (nat (fst d)) (drop position b) @ drop (nat (fst d)) (drop position b)
              = drop position b"
        by (rule append_take_drop_id)
      then have "take (nat (fst d)) (drop position b) @ drop (position + nat (fst d)) b
              = drop position b"
        by (simp add: add.commute)
      then show ?thesis
        using y(3) fl by (simp add: subslice_fragment)
    qed
    ultimately show "fst y = Returned (nw + int (length b - position)) None \<and>
        (\<exists>ws. sent (snd y) = sent w @ ws \<and> concat ws = drop position b) \<and>
        allWritesSucceed (snd y)"
      using y(4) by blast
  qed
qed

lemma loop_returns_ok:
  assumes "1 \<le> mn" and "allWritesSucceed w"
  shows "\<exists>w'. writeFragments_loop a b mn mx position nw w
            = Some (Returned (nw + int (length b - position)) None, w') \<and>
          (\<exists>ws. sent w' = sent w @ ws \<and> concat ws = drop position b) \<and>
          allWritesSucceed w'"
proof -
  obtain r w' where some: "writeFragments_loop a b mn mx position nw w = Some (r, w')"
    using loop_returns [OF assms(1)] by blast
  from loop_no_panic [OF some] assms(1) have "r \<noteq> Panicked"
    by simp
  with loop_roundtrip [OF some] assms(2) some show ?thesis
    by simp
qed






lemma conn_Write_failed_count:
  "snd (fst (conn_Write w p)) = None \<Longrightarrow> fst (fst (conn_Write w p)) = int (length p)"
  by (auto simp: conn_Write_def split: list.splits write_result.splits)



text \<open>The range that \<^verbatim>\<open>writeFragments\<close> selects for the chunk with index \<open>index\<close>.\<close>

definition sizeRange :: "Adapter \<Rightarrow> nat \<Rightarrow> int \<times> int" where
  "sizeRange a index = (if index = 0 then BSL a else if index = 1 then SL a else ASL a)"

lemma writeFragments_loop_eq:
  "writeFragments a b index w =
     writeFragments_loop a b (fst (sizeRange a index)) (snd (sizeRange a index)) 0 0 w"
  by (simp add: writeFragments_def sizeRange_def split_beta)


declare writeChunks.simps(2) [simp del]





lemma bytes_Index_range:
  "bytes_Index b sep = - 1 \<or>
     (0 \<le> bytes_Index b sep \<and> nat (bytes_Index b sep) + length sep \<le> length b \<and>
      take (length sep) (drop (nat (bytes_Index b sep)) b) = sep)"
proof (induction b)
  case Nil
  then show ?case by simp
next
  case (Cons x xs)
  show ?case
  proof (cases "take (length sep) (x # xs) = sep")
    case True
    then have "length (take (length sep) (x # xs)) = length sep"
      by simp
    then have "length sep \<le> length (x # xs)"
      by simp
    with True show ?thesis by simp
  next
    case False
    with Cons show ?thesis
      by (auto simp: Let_def nat_add_distrib)
  qed
qed

lemma copy_bytes_make: "length src = n \<Longrightarrow> copy_bytes (replicate n 0) src = src"
  by (simp add: copy_bytes_def)

text \<open>The chunks of the fragmenting path.\<close>

lemma fragment_path:
  assumes "fst (ReadClientHello (bytes_NewReader b)) = Inr hello"
    and "bytes_Index b (ServerName hello) \<noteq> - 1"
  defines "index \<equiv> nat (bytes_Index b (ServerName hello))"
  shows "fragmentAndWriteFirstPacket a b w =
           writeChunks a [take index b, take (length (ServerName hello)) (drop index b),
                          drop (index + length (ServerName hello)) b] 0 0 w"
proof -
  have le: "index + length (ServerName hello) \<le> length b"
    using bytes_Index_range [of b "ServerName hello"] assms(2) by (simp add: index_def)
  have "copy_bytes (replicate index 0) (subslice b 0 index) = take index b"
    using le by (simp add: copy_bytes_make subslice_def)
  moreover have "copy_bytes (replicate (length (ServerName hello)) 0)
        (subslice b index (index + length (ServerName hello)))
      = take (length (ServerName hello)) (drop index b)"
    using le by (simp add: copy_bytes_make subslice_def)
  moreover have "copy_bytes (replicate (length b - index - length (ServerName hello)) 0)
        (drop (index + length (ServerName hello)) b)
      = drop (index + length (ServerName hello)) b"
    using le by (simp add: copy_bytes_make)
  ultimately show ?thesis
    using assms(1,2) by (simp add: fragmentAndWriteFirstPacket_def Let_def index_def)
qed

lemma fallback_path:
  assumes "(\<exists>err. fst (ReadClientHello (bytes_NewReader b)) = Inl err) \<or>
           (\<exists>hello. fst (ReadClientHello (bytes_NewReader b)) = Inr hello \<and>
              bytes_Index b (ServerName hello) = - 1)"
  shows "fragmentAndWriteFirstPacket a b w = Some (returned (conn_Write w b))"
  using assms by (auto simp: fragmentAndWriteFirstPacket_def Let_def)

section \<open>Termination of the fragmentation loop\<close>

text \<open>
  Claim C10. For a size range whose minimum is at least 1 (and at most its maximum), the
  loop of \<^verbatim>\<open>writeFragments\<close> returns, from every position, whatever the data, the
  generator and the transport do, and so does \<^verbatim>\<open>writeFragments\<close> for the chunk index that
  selects this range. While data is left, the fragment length of an iteration, after the
  cut to the remaining bytes, is at least 1 and does not pass the end of the data: the
  position strictly increases. Without the precondition the loop need not return: with the
  range from 0 to 0, data left and a transport that takes every write, it never does.
\<close>

theorem writeFragments_terminates:
  assumes "1 \<le> lengthMin" and "lengthMin \<le> lengthMax"
  shows "(\<exists>r w'. writeFragments_loop a b lengthMin lengthMax position nw w = Some (r, w'))
       \<and> (sizeRange a index = (lengthMin, lengthMax) \<longrightarrow>
            (\<exists>r w'. writeFragments a b index w = Some (r, w')))
       \<and> (position < length b \<longrightarrow>
            1 \<le> fst (drawFragmentLength w lengthMin lengthMax (int (length b) - int position))
            \<and> position + nat (fst (drawFragmentLength w lengthMin lengthMax
                  (int (length b) - int position))) \<le> length b)
       \<and> (position < length b \<and> allWritesSucceed w \<longrightarrow>
            writeFragments_loop a b 0 0 position nw w = None)"
proof -
  have "1 \<le> fst (drawFragmentLength w lengthMin lengthMax (int (length b) - int position))"
    if "position < length b"
    using assms(1) that by (intro drawFragmentLength_ge) auto
  moreover have "position + nat (fst (drawFragmentLength w lengthMin lengthMax
                  (int (length b) - int position))) \<le> length b"
    if "position < length b"
    using drawFragmentLength_le [of w lengthMin lengthMax "int (length b) - int position"] that
    by linarith
  moreover have "\<exists>r w'. writeFragments a b index w = Some (r, w')"
    if "sizeRange a index = (lengthMin, lengthMax)"
    using loop_returns [OF assms(1), of a b lengthMax 0 0 w] that
    by (simp add: writeFragments_loop_eq)
  ultimately show ?thesis
    using loop_returns [OF assms(1)] loop_zero_diverges [of position b 0 w a nw]
    by blast
qed

theorem writeFragments_terminates_witness:
  "(\<exists>r w'. writeFragments (New (2000, 2000) (1, 2) (1, 2) (10, 20)) [1, 2, 3] 1 world0 = Some (r, w'))
   \<and> 1 \<le> fst (drawFragmentLength world0 1 2 (int (length [1, 2, 3 :: byte]) - int 0))
   \<and> writeFragments_loop (New (2000, 2000) (1, 2) (1, 2) (10, 20)) [1, 2, 3] 0 0 0 0 world0 = None"
proof -
  let ?a = "New (2000, 2000) (1, 2) (1, 2) (10, 20)"
  have 1: "sizeRange ?a 1 = (1, 2)"
    by (simp add: sizeRange_def New_def)
  have 2: "allWritesSucceed world0"
    by (simp add: allWritesSucceed_def world0_def)
  have 3: "(0 :: nat) < length [1, 2, 3 :: byte]"
    by simp
  have 4: "(1 :: int) \<le> 1" "(1 :: int) \<le> 2"
    by simp_all
  from writeFragments_terminates [OF 4, of ?a "[1, 2, 3]" 0 0 world0 1] 1 2 3
  show ?thesis
    by blast
qed

section \<open>The record reader on a stream of bytes\<close>

lemma int_be_eq: "int_be x y = unat x * 256 + unat y"
proof -
  have "push_bit 8 (unat x) + unat y = push_bit 8 (unat x) OR unat y"
  proof (rule disjunctive_add)
    fix n
    show "\<not> bit (push_bit 8 (unat x)) n \<or> \<not> bit (unat y) n"
      by (auto simp: bit_push_bit_iff bit_unsigned_iff dest: bit_imp_le_length)
  qed
  then show ?thesis
    by (simp add: int_be_def push_bit_eq_mult)
qed

lemma int24_be_eq: "int24_be x y z = unat x * 65536 + unat y * 256 + unat z"
proof -
  have 1: "push_bit 8 (unat y) + unat z = push_bit 8 (unat y) OR unat z"
  proof (rule disjunctive_add)
    fix n
    show "\<not> bit (push_bit 8 (unat y)) n \<or> \<not> bit (unat z) n"
      by (auto simp: bit_push_bit_iff bit_unsigned_iff dest: bit_imp_le_length)
  qed
  have 2: "push_bit 16 (unat x) + (push_bit 8 (unat y) OR unat z)
         = push_bit 16 (unat x) OR (push_bit 8 (unat y) OR unat z)"
  proof (rule disjunctive_add)
    fix n
    show "\<not> bit (push_bit 16 (unat x)) n \<or> \<not> bit (push_bit 8 (unat y) OR unat z) n"
      by (auto simp: bit_push_bit_iff bit_unsigned_iff bit_or_iff dest: bit_imp_le_length)
  qed
  have "int24_be x y z = push_bit 16 (unat x) OR (push_bit 8 (unat y) OR unat z)"
    by (simp add: int24_be_def or.assoc)
  also have "\<dots> = push_bit 16 (unat x) + (push_bit 8 (unat y) OR unat z)"
    by (rule 2 [symmetric])
  also have "\<dots> = push_bit 16 (unat x) + (push_bit 8 (unat y) + unat z)"
    by (simp only: 1)
  finally show ?thesis
    by (simp add: push_bit_eq_mult)
qed

lemma int_be_bound: "int_be x y < 65536"
proof -
  have "unat x < 256" "unat y < 256"
    using unsigned_less [of x, where ?'a = nat] unsigned_less [of y, where ?'a = nat]
    by simp_all
  then show ?thesis
    by (simp add: int_be_eq)
qed

text \<open>The two bytes of a length below 2^16, high byte first.\<close>

definition be16 :: "nat \<Rightarrow> bytes" where
  "be16 n = [of_nat (n div 256), of_nat (n mod 256)]"

lemma int_be_be16:
  assumes "n < 65536"
  shows "int_be (be16 n ! 0) (be16 n ! 1) = n"
proof -
  have "n div 256 < 256"
    using assms by simp
  then have "unat (of_nat (n div 256) :: byte) = n div 256"
    by (simp add: unat_of_nat)
  moreover have "unat (of_nat (n mod 256) :: byte) = n mod 256"
    by (simp add: unat_of_nat)
  ultimately show ?thesis
    by (simp add: int_be_eq be16_def)
qed

text \<open>The bytes a reader will deliver, and the readers that deliver them without an error
  (after the last byte they return \<^verbatim>\<open>io.EOF\<close>).\<close>

definition rdBytes :: "reader \<Rightarrow> bytes" where
  "rdBytes r = concat (map fst r)"

definition noErr :: "reader \<Rightarrow> bool" where
  "noErr r = list_all (\<lambda>(c, e). e = None) r"

lemma reader_Read_stream:
  assumes "noErr r"
  shows "fst (fst (reader_Read r k)) @ rdBytes (snd (reader_Read r k)) = rdBytes r"
    and "noErr (snd (reader_Read r k))"
    and "snd (fst (reader_Read r k)) \<noteq> None \<Longrightarrow>
           r = [] \<and> snd (fst (reader_Read r k)) = Some ErrEOF"
proof -
  show "fst (fst (reader_Read r k)) @ rdBytes (snd (reader_Read r k)) = rdBytes r"
    by (cases r) (auto simp: rdBytes_def)
  show "noErr (snd (reader_Read r k))"
    using assms by (cases r) (auto simp: noErr_def)
  show "r = [] \<and> snd (fst (reader_Read r k)) = Some ErrEOF"
    if "snd (fst (reader_Read r k)) \<noteq> None"
    using assms that by (cases r) (auto simp: noErr_def split: if_splits)
qed

lemma readFromUntil_stream_aux:
  "noErr r \<longrightarrow>
     data (fst (snd (readFromUntil b r n))) @ rdBytes (snd (snd (readFromUntil b r n)))
       = data b @ rdBytes r \<and>
     noErr (snd (snd (readFromUntil b r n))) \<and>
     fst (readFromUntil b r n)
       = (if n \<le> length (data b) + length (rdBytes r) then None else Some ErrEOF)"
proof (induction b r n rule: readFromUntil_result_induct)
  case (quick b r n)
  then show ?case by simp
next
  case (enough b r n res b2)
  show ?case
  proof
    assume ne: "noErr r"
    have d2: "data b2 = data b @ fst (fst res)"
      using enough(3) by simp
    have st: "fst (fst res) @ rdBytes (snd res) = rdBytes r" and ne': "noErr (snd res)"
      using reader_Read_stream(1,2) [OF ne] enough(2) by simp_all
    have "length (fst (fst res)) + length (rdBytes (snd res)) = length (rdBytes r)"
      using arg_cong [OF st, of length] by simp
    then have "n \<le> length (data b) + length (rdBytes r)"
      using enough(4) d2 by simp
    then show "data (fst (snd (None, b2, snd res))) @ rdBytes (snd (snd (None, b2, snd res)))
            = data b @ rdBytes r \<and>
          noErr (snd (snd (None, b2, snd res))) \<and>
          fst (None, b2, snd res)
            = (if n \<le> length (data b) + length (rdBytes r) then None else Some ErrEOF)"
      using d2 st ne' by simp
  qed
next
  case (failed b r n res b2 err)
  show ?case
  proof
    assume ne: "noErr r"
    from reader_Read_stream(3) [OF ne, of "cap (reserve b n) - length (data b)"] failed(2,5)
    have r: "r = []" and err: "err = ErrEOF"
      by simp_all
    have d2: "data b2 = data b" and res: "snd res = []"
      using failed(2,3) r by simp_all
    show "data (fst (snd (Some err, b2, snd res))) @
            rdBytes (snd (snd (Some err, b2, snd res))) = data b @ rdBytes r \<and>
          noErr (snd (snd (Some err, b2, snd res))) \<and>
          fst (Some err, b2, snd res)
            = (if n \<le> length (data b) + length (rdBytes r) then None else Some ErrEOF)"
      using failed(1) d2 res r err by (simp add: rdBytes_def noErr_def)
  qed
next
  case (again b r n res b2)
  show ?case
  proof
    assume ne: "noErr r"
    have d2: "data b2 = data b @ fst (fst res)"
      using again(3) by simp
    have st: "fst (fst res) @ rdBytes (snd res) = rdBytes r" and ne': "noErr (snd res)"
      using reader_Read_stream(1,2) [OF ne] again(2) by simp_all
    have len: "length (fst (fst res)) + length (rdBytes (snd res)) = length (rdBytes r)"
      using arg_cong [OF st, of length] by simp
    from again(6) ne'
    have IH: "data (fst (snd (readFromUntil b2 (snd res) n))) @
            rdBytes (snd (snd (readFromUntil b2 (snd res) n))) = data b2 @ rdBytes (snd res)"
      "noErr (snd (snd (readFromUntil b2 (snd res) n)))"
      "fst (readFromUntil b2 (snd res) n)
         = (if n \<le> length (data b2) + length (rdBytes (snd res)) then None else Some ErrEOF)"
      by simp_all
    have "data b2 @ rdBytes (snd res) = data b @ rdBytes r"
      using d2 st by simp
    moreover have "length (data b2) + length (rdBytes (snd res))
        = length (data b) + length (rdBytes r)"
      using d2 len by simp
    ultimately show "data (fst (snd (readFromUntil b2 (snd res) n))) @
            rdBytes (snd (snd (readFromUntil b2 (snd res) n))) = data b @ rdBytes r \<and>
          noErr (snd (snd (readFromUntil b2 (snd res) n))) \<and>
          fst (readFromUntil b2 (snd res) n)
            = (if n \<le> length (data b) + length (rdBytes r) then None else Some ErrEOF)"
      using IH by simp
  qed
qed

lemma readFromUntil_stream:
  assumes "noErr r" and "readFromUntil b r n = (e, b', r')"
  shows "data b' @ rdBytes r' = data b @ rdBytes r"
    and "noErr r'"
    and "e = (if n \<le> length (data b) + length (rdBytes r) then None else Some ErrEOF)"
  using readFromUntil_stream_aux [of r b n] assms by simp_all

text \<open>The bytes that a record reader has not consumed yet: those waiting in \<^verbatim>\<open>nextBlock\<close>,
  then those of the reader.\<close>

definition avail :: "rstate \<Rightarrow> bytes" where
  "avail s = (case nextBlock s of None \<Rightarrow> [] | Some b \<Rightarrow> data b) @ rdBytes (rd s)"

lemma readRecord_stream:
  assumes ne: "noErr (rd s)" and rr: "readRecord s = (e, s')"
  defines "st \<equiv> avail s"
  defines "n \<equiv> int_be (st ! 3) (st ! 4)"
  shows "noErr (rd s')"
    and "e = (if length st < 5 then Some ErrEOF
              else if st ! 0 = 0x80 then Some ErrSSLv2
              else if st ! 0 \<noteq> recordTypeHandshake \<or> uint16_be (st ! 1) (st ! 2) \<ge> 0x1000
              then Some ErrNotTLS
              else if length st < 5 + n then Some ErrEOF
              else None)"
    and "e = None \<Longrightarrow> hand s' = hand s @ take n (drop 5 st) \<and> avail s' = drop (5 + n) st"
proof -
  define b0 where "b0 = (case nextBlock s of None \<Rightarrow> newBlock | Some b \<Rightarrow> b)"
  have st0: "data b0 @ rdBytes (rd s) = st"
    by (simp add: st_def avail_def b0_def newBlock_def split: option.split)
  obtain e1 b1 r1 where r1: "readFromUntil b0 (rd s) recordHeaderLen = (e1, b1, r1)"
    by (metis prod_cases3)
  note s1 = readFromUntil_stream [OF ne r1]
  have len0: "length (data b0) + length (rdBytes (rd s)) = length st"
    unfolding st0 [symmetric] by simp
  have st1: "data b1 @ rdBytes r1 = st" and ne1: "noErr r1"
    using s1 st0 by simp_all
  have e1: "e1 = (if 5 \<le> length st then None else Some ErrEOF)"
    using s1(3) by (simp add: recordHeaderLen_def len0)
  note unf = readRecord_unfold [OF r1 [unfolded b0_def]]
  have all: "noErr (rd s') \<and>
     e = (if length st < 5 then Some ErrEOF
              else if st ! 0 = 0x80 then Some ErrSSLv2
              else if st ! 0 \<noteq> recordTypeHandshake \<or> uint16_be (st ! 1) (st ! 2) \<ge> 0x1000
              then Some ErrNotTLS
              else if length st < 5 + n then Some ErrEOF
              else None) \<and>
     (e = None \<longrightarrow> hand s' = hand s @ take n (drop 5 st) \<and> avail s' = drop (5 + n) st)"
  proof (cases "5 \<le> length st")
    case False
    with e1 rr unf ne1 show ?thesis by auto
  next
    case True
    with e1 have e1n: "e1 = None" by simp
    have l1: "5 \<le> length (data b1)"
      using readFromUntil_length [OF r1 [unfolded e1n]] by (simp add: recordHeaderLen_def)
    have nth: "data b1 ! i = st ! i" if "i < 5" for i
      using that l1 st1 [symmetric] by (simp add: nth_append)
    have hdr: "data b1 ! 0 = st ! 0" "data b1 ! 1 = st ! 1" "data b1 ! 2 = st ! 2"
      "data b1 ! 3 = st ! 3" "data b1 ! 4 = st ! 4"
      using nth by simp_all
    show ?thesis
    proof (cases "st ! 0 = 0x80 \<or> st ! 0 \<noteq> recordTypeHandshake
                    \<or> uint16_be (st ! 1) (st ! 2) \<ge> 0x1000")
      case bad: True
      with rr unf e1n hdr ne1 True show ?thesis
        by (auto simp: recordTypeHandshake_def)
    next
      case good: False
      define n1 where "n1 = int_be (data b1 ! 3) (data b1 ! 4)"
      have n1: "n1 = n"
        by (simp add: n1_def n_def hdr)
      obtain e2 b2 r2 where r2: "readFromUntil b1 r1 (recordHeaderLen + n1) = (e2, b2, r2)"
        by (metis prod_cases3)
      note s2 = readFromUntil_stream [OF ne1 r2]
      have len1: "length (data b1) + length (rdBytes r1) = length st"
        unfolding st1 [symmetric] by simp
      have st2: "data b2 @ rdBytes r2 = st" and ne2: "noErr r2"
        using s2 st1 by simp_all
      have e2: "e2 = (if 5 + n \<le> length st then None else Some ErrEOF)"
        using s2(3) by (simp add: recordHeaderLen_def len1 n1)
      have rr1: "readRecord s =
         (case e2 of
            Some e \<Rightarrow> (Some e, s\<lparr>nextBlock := Some b2, rd := r2\<rparr>)
          | None \<Rightarrow>
             (None, s\<lparr>nextBlock := snd (splitBlock b2 (recordHeaderLen + n1)), rd := r2,
                      hand := hand s @
                        subslice (data (fst (splitBlock b2 (recordHeaderLen + n1))))
                          recordHeaderLen (recordHeaderLen + n1)\<rparr>))"
        using good hdr(1,2,3)
        by (cases e2) (simp_all add: unf e1n r2 [unfolded n1_def] n1_def)
      have rr': "(e, s') =
         (case e2 of
            Some e \<Rightarrow> (Some e, s\<lparr>nextBlock := Some b2, rd := r2\<rparr>)
          | None \<Rightarrow>
             (None, s\<lparr>nextBlock := snd (splitBlock b2 (recordHeaderLen + n)), rd := r2,
                      hand := hand s @
                        subslice (data (fst (splitBlock b2 (recordHeaderLen + n))))
                          recordHeaderLen (recordHeaderLen + n)\<rparr>))"
        by (rule rr [symmetric, unfolded rr1 n1])
      show ?thesis
      proof (cases "5 + n \<le> length st")
        case False
        with e2 rr' ne2 good True show ?thesis by auto
      next
        case enough: True
        with e2 have e2n: "e2 = None" by simp
        have l2: "5 + n \<le> length (data b2)"
          using readFromUntil_length [OF r2 [unfolded e2n]] by (simp add: recordHeaderLen_def n1)
        note sp = splitBlock_data [OF l2]
        have tk: "take (5 + n) (data b2) = take (5 + n) st"
          using l2 st2 [symmetric] by simp
        have dr: "drop (5 + n) (data b2) @ rdBytes r2 = drop (5 + n) st"
          using l2 st2 [symmetric] by simp
        have s': "s' = s\<lparr>nextBlock := snd (splitBlock b2 (5 + n)), rd := r2,
                      hand := hand s @ subslice (data (fst (splitBlock b2 (5 + n)))) 5 (5 + n)\<rparr>"
          and e: "e = None"
          using rr' e2n by (simp_all add: recordHeaderLen_def)
        have "subslice (data (fst (splitBlock b2 (5 + n)))) 5 (5 + n) = take n (drop 5 st)"
          using sp tk by (simp add: subslice_def drop_take)
        moreover have "avail s' = drop (5 + n) st"
          using sp dr by (simp add: avail_def s')
        ultimately show ?thesis
          using e s' ne2 good True enough by simp
      qed
    qed
  qed
  from all show "noErr (rd s')" by simp
  from all show "e = (if length st < 5 then Some ErrEOF
              else if st ! 0 = 0x80 then Some ErrSSLv2
              else if st ! 0 \<noteq> recordTypeHandshake \<or> uint16_be (st ! 1) (st ! 2) \<ge> 0x1000
              then Some ErrNotTLS
              else if length st < 5 + n then Some ErrEOF
              else None)" by simp
  from all show "e = None \<Longrightarrow> hand s' = hand s @ take n (drop 5 st) \<and> avail s' = drop (5 + n) st"
    by simp
qed

text \<open>A handshake record with the version bytes \<open>v1\<close>, \<open>v2\<close> and the payload \<open>p\<close>.\<close>

definition tlsRecord :: "byte \<Rightarrow> byte \<Rightarrow> bytes \<Rightarrow> bytes" where
  "tlsRecord v1 v2 p = [22, v1, v2] @ be16 (length p) @ p"

lemma readRecord_one:
  assumes ne: "noErr (rd s)"
    and av: "avail s = tlsRecord v1 v2 p @ rest"
    and ver: "\<not> 0x1000 \<le> uint16_be v1 v2"
    and len: "length p < 65536"
  shows "\<exists>s'. readRecord s = (None, s') \<and> hand s' = hand s @ p \<and> avail s' = rest \<and>
          noErr (rd s')"
proof -
  obtain e s' where rr: "readRecord s = (e, s')"
    by (metis prod.exhaust)
  define hdr where "hdr = [22, v1, v2] @ be16 (length p)"
  have hl: "length hdr = 5"
    by (simp add: hdr_def be16_def)
  have st: "avail s = hdr @ p @ rest"
    by (simp add: av tlsRecord_def hdr_def)
  have nth: "avail s ! i = hdr ! i" if "i < 5" for i
    using that hl by (simp add: st nth_append)
  have h: "avail s ! 0 = 22" "avail s ! Suc 0 = v1" "avail s ! 2 = v2"
    by (simp_all add: nth) (simp_all add: hdr_def)
  have h': "avail s ! 3 = be16 (length p) ! 0" "avail s ! 4 = be16 (length p) ! 1"
    by (simp_all add: nth) (simp_all add: hdr_def be16_def)
  have n: "int_be (avail s ! 3) (avail s ! 4) = length p"
    using int_be_be16 [OF len] by (simp add: h')
  have l: "length (avail s) = 5 + length p + length rest"
    by (simp add: st hl)
  have tk: "take (length p) (drop 5 (avail s)) = p"
    and dr: "drop (5 + length p) (avail s) = rest"
    using hl by (simp_all add: st)
  note R = readRecord_stream [OF ne rr]
  have e: "e = None"
    using R(2) ver by (simp add: n l h recordTypeHandshake_def)
  from R(3) [OF e] have "hand s' = hand s @ p" "avail s' = rest"
    by (simp_all add: n tk dr)
  with rr e R(1) show ?thesis
    by simp
qed

lemma ReadClientHello_unfold:
  assumes "readRecord \<lparr>nextBlock = None, hand = [], rd = r\<rparr> = (None, s1)"
    and "4 \<le> length (hand s1)"
    and "n = int24_be (hand s1 ! 1) (hand s1 ! 2) (hand s1 ! 3)"
    and "readMore s1 (4 + n) = (None, s2)"
  shows "fst (ReadClientHello r) =
           (if take (4 + n) (hand s2) ! 0 \<noteq> typeClientHello then Inl ErrNotTLS
            else (case unmarshal new_ClientHelloMsg (take (4 + n) (hand s2)) of
                    None \<Rightarrow> Inl ErrNotTLS
                  | Some msg \<Rightarrow> Inr msg))"
  using assms(2) assms(4) [unfolded assms(3)]
  by (simp add: ReadClientHello_def assms(1) Let_def assms(3) split: option.split)

lemma avail_initial: "avail \<lparr>nextBlock = None, hand = [], rd = r\<rparr> = rdBytes r"
  by (simp add: avail_def)

text \<open>A message that lies in the first record.\<close>

lemma ReadClientHello_one_record:
  assumes ne: "noErr r"
    and st: "rdBytes r = tlsRecord v1 v2 p @ rest"
    and ver: "\<not> 0x1000 \<le> uint16_be v1 v2"
    and len: "length p < 65536"
    and l4: "4 \<le> length p"
    and n: "n = int24_be (p ! 1) (p ! 2) (p ! 3)"
    and ln: "4 + n \<le> length p"
  shows "fst (ReadClientHello r) =
           (if p ! 0 \<noteq> typeClientHello then Inl ErrNotTLS
            else (case unmarshal new_ClientHelloMsg (take (4 + n) p) of
                    None \<Rightarrow> Inl ErrNotTLS
                  | Some msg \<Rightarrow> Inr msg))"
proof -
  let ?s0 = "\<lparr>nextBlock = None, hand = [], rd = r\<rparr>"
  from readRecord_one [of ?s0 v1 v2 p rest] ne st ver len
  obtain s1 where 1: "readRecord ?s0 = (None, s1)" "hand s1 = p"
    by (auto simp: avail_initial)
  have 2: "readMore s1 (4 + n) = (None, s1)"
    using ln 1(2) by (subst readMore.simps) simp
  have h0: "take (4 + n) p ! 0 = p ! 0"
    by simp
  have h1: "4 \<le> length (hand s1)"
    and h2: "n = int24_be (hand s1 ! 1) (hand s1 ! 2) (hand s1 ! 3)"
    using l4 n 1(2) by simp_all
  from ReadClientHello_unfold [OF 1(1) h1 h2 2] show ?thesis
    unfolding 1(2) h0 .
qed

text \<open>A message that is split over the first two records, at least four bytes of it in
  the first.\<close>

lemma ReadClientHello_two_records_aux:
  assumes ne: "noErr r"
    and st: "rdBytes r = tlsRecord v1 v2 p1 @ tlsRecord v3 v4 p2 @ rest"
    and ver: "\<not> 0x1000 \<le> uint16_be v1 v2" "\<not> 0x1000 \<le> uint16_be v3 v4"
    and len: "length p1 < 65536" "length p2 < 65536"
    and l4: "4 \<le> length p1"
    and n: "n = int24_be (p1 ! 1) (p1 ! 2) (p1 ! 3)"
    and ln: "length p1 < 4 + n" "4 + n \<le> length p1 + length p2"
  shows "fst (ReadClientHello r) =
           (if p1 ! 0 \<noteq> typeClientHello then Inl ErrNotTLS
            else (case unmarshal new_ClientHelloMsg (take (4 + n) (p1 @ p2)) of
                    None \<Rightarrow> Inl ErrNotTLS
                  | Some msg \<Rightarrow> Inr msg))"
proof -
  let ?s0 = "\<lparr>nextBlock = None, hand = [], rd = r\<rparr>"
  from readRecord_one [of ?s0 v1 v2 p1 "tlsRecord v3 v4 p2 @ rest"] ne st ver(1) len(1)
  obtain s1 where 1: "readRecord ?s0 = (None, s1)" "hand s1 = p1"
    "avail s1 = tlsRecord v3 v4 p2 @ rest" "noErr (rd s1)"
    by (auto simp: avail_initial)
  from readRecord_one [OF 1(4) 1(3) ver(2) len(2)]
  obtain s2 where 2: "readRecord s1 = (None, s2)" "hand s2 = p1 @ p2"
    using 1(2) by auto
  have "readMore s2 (4 + n) = (None, s2)"
    using ln 2(2) by (subst readMore.simps) simp
  then have 3: "readMore s1 (4 + n) = (None, s2)"
    using ln 1(2) 2(1) by (subst readMore.simps) simp
  have "p1 \<noteq> []"
    using l4 by auto
  then have h0: "take (4 + n) (p1 @ p2) ! 0 = p1 ! 0"
    by (simp add: nth_append)
  have h1: "4 \<le> length (hand s1)"
    and h2: "n = int24_be (hand s1 ! 1) (hand s1 ! 2) (hand s1 ! 3)"
    using l4 n 1(2) by simp_all
  from ReadClientHello_unfold [OF 1(1) h1 h2 3] show ?thesis
    unfolding 2(2) h0 .
qed

text \<open>A first record that holds fewer than four bytes of the message is refused, whatever
  follows it.\<close>

lemma ReadClientHello_short_first_record:
  assumes ne: "noErr r"
    and st: "rdBytes r = tlsRecord v1 v2 p @ rest"
    and ver: "\<not> 0x1000 \<le> uint16_be v1 v2"
    and len: "length p < 4"
  shows "fst (ReadClientHello r) = Inl ErrNotTLS"
proof -
  let ?s0 = "\<lparr>nextBlock = None, hand = [], rd = r\<rparr>"
  from readRecord_one [of ?s0 v1 v2 p rest] ne st ver len
  obtain s1 where 1: "readRecord ?s0 = (None, s1)" "hand s1 = p"
    by (auto simp: avail_initial)
  then show ?thesis
    using len by (simp add: ReadClientHello_def Let_def)
qed

text \<open>A stream whose first byte is \<open>0x80\<close> is refused once five bytes are there, whatever
  follows them, and also when nothing does.\<close>

lemma ReadClientHello_sslv2:
  assumes ne: "noErr r" and l: "5 \<le> length (rdBytes r)" and t: "rdBytes r ! 0 = 0x80"
  shows "fst (ReadClientHello r) = Inl ErrSSLv2"
proof -
  let ?s0 = "\<lparr>nextBlock = None, hand = [], rd = r\<rparr>"
  obtain e s1 where rr: "readRecord ?s0 = (e, s1)"
    by (metis prod.exhaust)
  from readRecord_stream(2) [OF _ rr] ne l t have "e = Some ErrSSLv2"
    by (simp add: avail_initial)
  with rr show ?thesis
    by (simp add: ReadClientHello_def)
qed

lemma noErr_NewReader: "noErr (bytes_NewReader b)"
  by (simp add: noErr_def bytes_NewReader_def)

lemma rdBytes_NewReader: "rdBytes (bytes_NewReader b) = b"
  by (simp add: rdBytes_def bytes_NewReader_def)

section \<open>A ClientHello to run the adapter on\<close>

text \<open>A ClientHello of 60 bytes in one record: TLS 1.2, a null random, no session id, one
  cipher suite, one compression method, and the server_name extension with the one
  host name \<^verbatim>\<open>a.io\<close>, which stands at offset 61 of the record.\<close>

definition helloMsg :: bytes where
  "helloMsg = [1, 0, 0, 56, 3, 3] @ replicate 32 0 @ [0, 0, 2, 0x13, 0x01, 1, 0, 0, 13,
            0, 0, 0, 9, 0, 7, 0, 0, 4, 0x61, 0x2e, 0x69, 0x6f]"

definition hello :: bytes where
  "hello = tlsRecord 3 1 helloMsg"

definition helloParsed :: ClientHelloMsg where
  "helloParsed =
     \<lparr>Raw = helloMsg, Versions = 0x303, Random = replicate 32 0, SessionID = [],
      CipherSuites = [0x1301], CompressionMethods = [0], NextProtoNeg = False,
      ServerName = [0x61, 0x2e, 0x69, 0x6f], OcspStapling = False, SupportedCurves = [],
      SupportedPoints = [], TicketSupported = False, SessionTicket = []\<rparr>"

lemma unmarshal_helloMsg: "unmarshal new_ClientHelloMsg helloMsg = Some helloParsed"
  by code_simp

lemma helloMsg_length: "length helloMsg = 60"
  by (simp add: helloMsg_def)

lemma helloMsg_type: "helloMsg ! 0 = typeClientHello"
  by (simp add: helloMsg_def typeClientHello_def)

lemma helloMsg_n: "int24_be (helloMsg ! 1) (helloMsg ! 2) (helloMsg ! 3) = 56"
  by (simp add: helloMsg_def int24_be_eq)

lemma version_ok: "\<not> 0x1000 \<le> uint16_be 3 1"
  by code_simp

lemma ReadClientHello_hello: "fst (ReadClientHello (bytes_NewReader hello)) = Inr helloParsed"
proof -
  have "fst (ReadClientHello (bytes_NewReader hello)) =
           (if helloMsg ! 0 \<noteq> typeClientHello then Inl ErrNotTLS
            else (case unmarshal new_ClientHelloMsg (take (4 + 56) helloMsg) of
                    None \<Rightarrow> Inl ErrNotTLS
                  | Some msg \<Rightarrow> Inr msg))"
  proof (rule ReadClientHello_one_record [where rest = "[]" and ?v1.0 = 3 and ?v2.0 = 1])
    show "56 = int24_be (helloMsg ! 1) (helloMsg ! 2) (helloMsg ! 3)"
      by (rule helloMsg_n [symmetric])
  qed (simp_all add: noErr_NewReader rdBytes_NewReader hello_def version_ok helloMsg_length)
  then show ?thesis
    by (simp add: helloMsg_type helloMsg_length unmarshal_helloMsg)
qed



definition adapter20 :: Adapter where
  "adapter20 = New (20, 20) (1, 2) (1, 2) (10, 20)"






section \<open>Transport errors during the fragmented first write\<close>




section \<open>The round trip of the fragmented first write\<close>







section \<open>The fallback of the first write\<close>

text \<open>A stream whose first byte is neither \<open>0x80\<close> nor the handshake type is refused once
  five bytes are there.\<close>

lemma ReadClientHello_not_handshake:
  assumes ne: "noErr r" and l: "5 \<le> length (rdBytes r)"
    and t: "rdBytes r ! 0 \<noteq> 0x80" "rdBytes r ! 0 \<noteq> recordTypeHandshake"
  shows "fst (ReadClientHello r) = Inl ErrNotTLS"
proof -
  let ?s0 = "\<lparr>nextBlock = None, hand = [], rd = r\<rparr>"
  obtain e s1 where rr: "readRecord ?s0 = (e, s1)"
    by (metis prod.exhaust)
  from readRecord_stream(2) [OF _ rr] ne l t have "e = Some ErrNotTLS"
    by (simp add: avail_initial)
  with rr show ?thesis
    by (simp add: ReadClientHello_def)
qed

lemma bytes_Index_empty: "bytes_Index b [] = 0"
  by (cases b) simp_all

text \<open>The bytes of \<^verbatim>\<open>"hello world"\<close>.\<close>

definition helloWorld :: bytes where
  "helloWorld = [0x68, 0x65, 0x6c, 0x6c, 0x6f, 0x20, 0x77, 0x6f, 0x72, 0x6c, 0x64]"

text \<open>A ClientHello of 45 bytes in one record, without extensions: its server name is
  empty.\<close>

definition helloNoSniMsg :: bytes where
  "helloNoSniMsg = [1, 0, 0, 41, 3, 3] @ replicate 32 0 @ [0, 0, 2, 0x13, 0x01, 1, 0]"

definition helloNoSni :: bytes where
  "helloNoSni = tlsRecord 3 1 helloNoSniMsg"

definition helloNoSniParsed :: ClientHelloMsg where
  "helloNoSniParsed =
     \<lparr>Raw = helloNoSniMsg, Versions = 0x303, Random = replicate 32 0, SessionID = [],
      CipherSuites = [0x1301], CompressionMethods = [0], NextProtoNeg = False,
      ServerName = [], OcspStapling = False, SupportedCurves = [],
      SupportedPoints = [], TicketSupported = False, SessionTicket = []\<rparr>"

definition adapter30 :: Adapter where
  "adapter30 = New (20, 20) (1, 2) (30, 30) (0, 0)"

lemma unmarshal_helloNoSniMsg:
  "unmarshal new_ClientHelloMsg helloNoSniMsg = Some helloNoSniParsed"
  by code_simp

lemma ReadClientHello_helloNoSni:
  "fst (ReadClientHello (bytes_NewReader helloNoSni)) = Inr helloNoSniParsed"
proof -
  have len: "length helloNoSniMsg = 45"
    by (simp add: helloNoSniMsg_def)
  have "fst (ReadClientHello (bytes_NewReader helloNoSni)) =
           (if helloNoSniMsg ! 0 \<noteq> typeClientHello then Inl ErrNotTLS
            else (case unmarshal new_ClientHelloMsg (take (4 + 41) helloNoSniMsg) of
                    None \<Rightarrow> Inl ErrNotTLS
                  | Some msg \<Rightarrow> Inr msg))"
  proof (rule ReadClientHello_one_record [where rest = "[]" and ?v1.0 = 3 and ?v2.0 = 1])
    show "41 = int24_be (helloNoSniMsg ! 1) (helloNoSniMsg ! 2) (helloNoSniMsg ! 3)"
      by (simp add: helloNoSniMsg_def int24_be_eq)
  qed (simp_all add: noErr_NewReader rdBytes_NewReader helloNoSni_def version_ok len)
  then show ?thesis
    by (simp add: len unmarshal_helloNoSniMsg) (simp add: helloNoSniMsg_def typeClientHello_def)
qed

lemma chunks_helloNoSni:
  "map_option (\<lambda>y. (fst y, sent (snd y)))
     (writeChunks (adapter30\<lparr>isFirstWrite := False\<rparr>) [[], [], helloNoSni] 0 0 world0)
   = Some (Returned 50 None, [take 30 helloNoSni, drop 30 helloNoSni])"
  by code_simp

text \<open>
  Claim C6, as amended. On the first write, if \<^verbatim>\<open>ReadClientHello\<close> fails on the bytes, or
  the server name of the decoded message does not occur in them, \<^verbatim>\<open>Write\<close> is one
  \<^verbatim>\<open>conn.Write\<close> call on the caller's bytes, whose result it returns; when the transport
  takes the write, what it has received is the caller's bytes, as one entry. An empty
  server name does not lead here: \<^verbatim>\<open>bytes.Index\<close> finds the empty name at offset 0, the
  chunks before and of the name are empty, and all of the input is fragmented as the
  chunk after the name.
\<close>

theorem first_write_fallback:
  assumes "isFirstWrite a"
  shows "((\<exists>err. fst (ReadClientHello (bytes_NewReader b)) = Inl err) \<or>
          (\<exists>msg. fst (ReadClientHello (bytes_NewReader b)) = Inr msg \<and>
                 bytes_Index b (ServerName msg) = - 1)
          \<longrightarrow> snd (Write a b w) = Some (returned (conn_Write w b)))
       \<and> (nextWriteSucceeds w \<longrightarrow>
            returned (conn_Write w b)
              = (Returned (int (length b)) None,
                 w\<lparr>sent := sent w @ [b], writeResults := tl (writeResults w)\<rparr>))
       \<and> (\<forall>msg. fst (ReadClientHello (bytes_NewReader b)) = Inr msg \<and> ServerName msg = []
            \<longrightarrow> snd (Write a b w) = writeChunks (a\<lparr>isFirstWrite := False\<rparr>) [[], [], b] 0 0 w)"
proof -
  have 1: "snd (Write a b w) = fragmentAndWriteFirstPacket (a\<lparr>isFirstWrite := False\<rparr>) b w"
    using assms by (simp add: Write_def Let_def)
  have 3: "snd (Write a b w) = writeChunks (a\<lparr>isFirstWrite := False\<rparr>) [[], [], b] 0 0 w"
    if "fst (ReadClientHello (bytes_NewReader b)) = Inr msg" "ServerName msg = []" for msg
    using fragment_path [OF that(1), of "a\<lparr>isFirstWrite := False\<rparr>" w]
    by (simp add: 1 that(2) bytes_Index_empty)
  show ?thesis
    using fallback_path [of b "a\<lparr>isFirstWrite := False\<rparr>" w] 3
    by (simp add: 1 conn_Write_ok returned_def)
qed

theorem first_write_fallback_witness:
  "isFirstWrite adapter20
   \<and> fst (ReadClientHello (bytes_NewReader helloWorld)) = Inl ErrNotTLS
   \<and> snd (Write adapter20 helloWorld world0)
       = Some (Returned 11 None, world0\<lparr>sent := [helloWorld]\<rparr>)"
proof -
  have 1: "isFirstWrite adapter20"
    by (simp add: adapter20_def New_def)
  have 2: "fst (ReadClientHello (bytes_NewReader helloWorld)) = Inl ErrNotTLS"
    by (rule ReadClientHello_not_handshake)
       (simp_all add: noErr_NewReader rdBytes_NewReader helloWorld_def recordTypeHandshake_def)
  have 3: "nextWriteSucceeds world0"
    by (simp add: nextWriteSucceeds_def world0_def)
  from first_write_fallback [OF 1, of helloWorld world0] 2 3
  have "snd (Write adapter20 helloWorld world0) = Some (returned (conn_Write world0 helloWorld))"
    and "returned (conn_Write world0 helloWorld)
          = (Returned (int (length helloWorld)) None,
             world0\<lparr>sent := sent world0 @ [helloWorld], writeResults := tl (writeResults world0)\<rparr>)"
    by blast+
  then have "snd (Write adapter20 helloWorld world0)
       = Some (Returned 11 None, world0\<lparr>sent := [helloWorld]\<rparr>)"
    by (simp add: world0_def) (simp add: helloWorld_def)
  with 1 2 show ?thesis
    by blast
qed

text \<open>The claim as the spec states it has the input written once when the server name is
  empty. The ClientHello without extensions above, 50 bytes with its record header, is
  written as two fragments of 30 and 20 bytes when the size range after the server name
  is 30 to 30.\<close>

theorem empty_server_name_counterexample:
  "\<not> (\<forall>a b w msg. isFirstWrite a \<and> fst (ReadClientHello (bytes_NewReader b)) = Inr msg
         \<and> ServerName msg = [] \<longrightarrow> snd (Write a b w) = Some (returned (conn_Write w b)))"
proof
  assume claim: "\<forall>a b w msg. isFirstWrite a
         \<and> fst (ReadClientHello (bytes_NewReader b)) = Inr msg
         \<and> ServerName msg = [] \<longrightarrow> snd (Write a b w) = Some (returned (conn_Write w b))"
  have 1: "isFirstWrite adapter30" and 2: "ServerName helloNoSniParsed = []"
    by (simp_all add: adapter30_def New_def helloNoSniParsed_def)
  from claim 1 2 ReadClientHello_helloNoSni
  have once: "snd (Write adapter30 helloNoSni world0)
                = Some (returned (conn_Write world0 helloNoSni))"
    by blast
  from first_write_fallback [OF 1, of helloNoSni world0] ReadClientHello_helloNoSni 2
  have "snd (Write adapter30 helloNoSni world0)
          = writeChunks (adapter30\<lparr>isFirstWrite := False\<rparr>) [[], [], helloNoSni] 0 0 world0"
    by blast
  then have eq: "writeChunks (adapter30\<lparr>isFirstWrite := False\<rparr>) [[], [], helloNoSni] 0 0 world0
          = Some (returned (conn_Write world0 helloNoSni))"
    using once by simp
  have "map_option (\<lambda>y. (fst y, sent (snd y))) (Some (returned (conn_Write world0 helloNoSni)))
          = Some (Returned 50 None, [take 30 helloNoSni, drop 30 helloNoSni])"
    by (rule chunks_helloNoSni [unfolded eq])
  then show False
    by (simp add: returned_def conn_Write_def world0_def)
qed

section \<open>The server_name extension\<close>





lemma length_be16 [simp]: "length (be16 n) = 2"
  by (simp add: be16_def)












section \<open>A handshake message in two records\<close>

text \<open>
  Claim C4, as amended. Let a handshake message \<open>m\<close> of fewer than 2^16 bytes, whose
  length is 4 plus the length in its bytes 1 to 3, be read once from a stream where it is
  the payload of one record, and once from a stream where it is cut after \<open>k\<close> bytes into
  the payloads of two records, each with its own header, with at least 4 and not all of
  the bytes in the first. Whatever comes after in the streams and however the readers
  deliver their bytes, \<^verbatim>\<open>ReadClientHello\<close> returns the same from both: the message that
  \<^verbatim>\<open>unmarshal\<close> decodes from \<open>m\<close>, or the error for a message it refuses.
\<close>

theorem ReadClientHello_two_records:
  assumes "noErr r1" and "noErr r2"
    and "rdBytes r1 = tlsRecord v1 v2 m @ rest1"
    and "rdBytes r2 = tlsRecord v3 v4 (take k m) @ tlsRecord v5 v6 (drop k m) @ rest2"
    and "\<not> 0x1000 \<le> uint16_be v1 v2" and "\<not> 0x1000 \<le> uint16_be v3 v4"
    and "\<not> 0x1000 \<le> uint16_be v5 v6"
    and "length m < 65536"
    and "length m = 4 + int24_be (m ! 1) (m ! 2) (m ! 3)"
    and "4 \<le> k" and "k < length m"
  shows "fst (ReadClientHello r2) = fst (ReadClientHello r1)
       \<and> fst (ReadClientHello r1) =
           (if m ! 0 \<noteq> typeClientHello then Inl ErrNotTLS
            else (case unmarshal new_ClientHelloMsg m of
                    None \<Rightarrow> Inl ErrNotTLS
                  | Some msg \<Rightarrow> Inr msg))"
proof -
  define n where "n = int24_be (m ! 1) (m ! 2) (m ! 3)"
  have len: "length m = 4 + n"
    using assms(9) by (simp add: n_def)
  have tk: "take (4 + n) m = m"
    using len by simp
  have one: "fst (ReadClientHello r1) =
           (if m ! 0 \<noteq> typeClientHello then Inl ErrNotTLS
            else (case unmarshal new_ClientHelloMsg (take (4 + n) m) of
                    None \<Rightarrow> Inl ErrNotTLS
                  | Some msg \<Rightarrow> Inr msg))"
    using len by (intro ReadClientHello_one_record [OF assms(1,3,5,8) _ n_def]) simp_all
  have k: "length (take k m) = k" "length (drop k m) = length m - k"
    using assms(11) by simp_all
  have n': "n = int24_be (take k m ! 1) (take k m ! 2) (take k m ! 3)"
    using assms(10) by (simp add: n_def)
  have two: "fst (ReadClientHello r2) =
           (if take k m ! 0 \<noteq> typeClientHello then Inl ErrNotTLS
            else (case unmarshal new_ClientHelloMsg (take (4 + n) (take k m @ drop k m)) of
                    None \<Rightarrow> Inl ErrNotTLS
                  | Some msg \<Rightarrow> Inr msg))"
    using assms(8,10,11) len k
    by (intro ReadClientHello_two_records_aux [OF assms(2,4,6,7) _ _ _ n']) simp_all
  have "take k m ! 0 = m ! 0"
    using assms(10) by simp
  with one two show ?thesis
    by (simp add: tk)
qed

text \<open>The ClientHello above, cut after 10 bytes into two records, and read from a reader
  that delivers the two records one after the other.\<close>

definition helloTwoRecords :: reader where
  "helloTwoRecords =
     [(tlsRecord 3 1 (take 10 helloMsg), None), (tlsRecord 3 1 (drop 10 helloMsg), None)]"

theorem ReadClientHello_two_records_witness:
  "fst (ReadClientHello helloTwoRecords) = Inr helloParsed
   \<and> fst (ReadClientHello (bytes_NewReader hello)) = Inr helloParsed"
proof -
  have 1: "noErr (bytes_NewReader hello)" "noErr helloTwoRecords"
    "rdBytes (bytes_NewReader hello) = tlsRecord 3 1 helloMsg @ []"
    "rdBytes helloTwoRecords
       = tlsRecord 3 1 (take 10 helloMsg) @ tlsRecord 3 1 (drop 10 helloMsg) @ []"
    by (simp_all add: noErr_NewReader rdBytes_NewReader hello_def)
       (simp_all add: noErr_def rdBytes_def helloTwoRecords_def)
  have 2: "length helloMsg < 65536"
    "length helloMsg = 4 + int24_be (helloMsg ! 1) (helloMsg ! 2) (helloMsg ! 3)"
    "(4 :: nat) \<le> 10" "10 < length helloMsg"
    using helloMsg_n by (simp_all add: helloMsg_length)
  from ReadClientHello_two_records [OF 1(1,2,3,4) version_ok version_ok version_ok 2]
  show ?thesis
    by (simp add: helloMsg_type unmarshal_helloMsg)
qed

text \<open>The claim as the spec states it holds for every way of splitting. When fewer than
  four bytes of the message are in the first record, \<^verbatim>\<open>ReadClientHello\<close> refuses the stream
  (the test \<^verbatim>\<open>len(data) < 4\<close> comes before the loop that reads further records), although
  the message is decoded from a single record.\<close>

theorem ReadClientHello_split_counterexample:
  "\<not> (\<forall>m k r1 r2. noErr r1 \<and> noErr r2 \<and> rdBytes r1 = tlsRecord 3 1 m
         \<and> rdBytes r2 = tlsRecord 3 1 (take k m) @ tlsRecord 3 1 (drop k m)
         \<and> (\<exists>msg. fst (ReadClientHello r1) = Inr msg)
         \<longrightarrow> fst (ReadClientHello r2) = fst (ReadClientHello r1))"
proof
  assume claim: "\<forall>m k r1 r2. noErr r1 \<and> noErr r2 \<and> rdBytes r1 = tlsRecord 3 1 m
         \<and> rdBytes r2 = tlsRecord 3 1 (take k m) @ tlsRecord 3 1 (drop k m)
         \<and> (\<exists>msg. fst (ReadClientHello r1) = Inr msg)
         \<longrightarrow> fst (ReadClientHello r2) = fst (ReadClientHello r1)"
  let ?r2 = "bytes_NewReader (tlsRecord 3 1 (take 3 helloMsg) @ tlsRecord 3 1 (drop 3 helloMsg))"
  have short: "fst (ReadClientHello ?r2) = Inl ErrNotTLS"
    by (rule ReadClientHello_short_first_record
          [where p = "take 3 helloMsg" and rest = "tlsRecord 3 1 (drop 3 helloMsg)"
             and ?v1.0 = 3 and ?v2.0 = 1])
       (simp_all add: noErr_NewReader rdBytes_NewReader version_ok helloMsg_length)
  have "noErr (bytes_NewReader hello)" "noErr ?r2"
    "rdBytes (bytes_NewReader hello) = tlsRecord 3 1 helloMsg"
    "rdBytes ?r2 = tlsRecord 3 1 (take 3 helloMsg) @ tlsRecord 3 1 (drop 3 helloMsg)"
    by (simp_all add: noErr_NewReader rdBytes_NewReader hello_def)
  with claim ReadClientHello_hello
  have "fst (ReadClientHello ?r2) = fst (ReadClientHello (bytes_NewReader hello))"
    by blast
  with short ReadClientHello_hello show False
    by simp
qed


section \<open>Inputs that the decoder refuses\<close>

lemma unmarshal_session_id_too_long:
  "32 < unat (d ! 38) \<Longrightarrow> unmarshal m d = None"
  by (simp add: unmarshal_def Let_def)

lemma unmarshalCipherSuites_odd:
  "odd (int_be (d ! 0) (d ! 1)) \<Longrightarrow> unmarshalCipherSuites m d = None"
  by (simp add: unmarshalCipherSuites_def Let_def odd_iff_mod_2_eq_one)

lemma unmarshal_odd_cipher_suites:
  assumes "odd (int_be (d ! (39 + unat (d ! 38))) (d ! (40 + unat (d ! 38))))"
  shows "unmarshal m d = None"
proof (cases "length d < 41 + unat (d ! 38)")
  case True
  then show ?thesis
    by (simp add: unmarshal_def Let_def unmarshalCipherSuites_def)
next
  case False
  then have "drop (39 + unat (d ! 38)) d ! 0 = d ! (39 + unat (d ! 38))"
    "drop (39 + unat (d ! 38)) d ! 1 = d ! (40 + unat (d ! 38))"
    by simp_all
  with assms have "unmarshalCipherSuites m' (drop (39 + unat (d ! 38)) d) = None" for m'
    by (intro unmarshalCipherSuites_odd) simp
  then show ?thesis
    by (simp add: unmarshal_def Let_def)
qed

lemma unmarshalExtensions_length:
  assumes "2 \<le> length d" and "int_be (d ! 0) (d ! 1) \<noteq> length d - 2"
  shows "unmarshalExtensions m d = None"
  using assms by (auto simp: unmarshalExtensions_def Let_def)

lemma unmarshalCompressionMethods_extensions:
  assumes "3 + unat (d ! 0) \<le> length d"
    and "int_be (d ! (1 + unat (d ! 0))) (d ! (2 + unat (d ! 0))) \<noteq> length d - (3 + unat (d ! 0))"
  shows "unmarshalCompressionMethods m d = None"
proof -
  have "unmarshalExtensions m' (drop (1 + unat (d ! 0)) d) = None" for m'
    using assms by (intro unmarshalExtensions_length) (simp_all add: add.commute)
  then show ?thesis
    using assms(1) by (simp add: unmarshalCompressionMethods_def Let_def)
qed

lemma nth_drop_at: "n \<le> length xs \<Longrightarrow> k = n + i \<Longrightarrow> drop n xs ! i = xs ! k"
  by simp

lemma unmarshalCipherSuites_extensions:
  assumes "cl = int_be (d ! 0) (d ! 1)"
    and "cm = unat (d ! (2 + cl))"
    and "5 + cl + cm \<le> length d"
    and "int_be (d ! (3 + cl + cm)) (d ! (4 + cl + cm)) \<noteq> length d - (5 + cl + cm)"
  shows "unmarshalCipherSuites m d = None"
proof -
  let ?d = "drop (2 + cl) d"
  have 0: "?d ! 0 = d ! (2 + cl)"
    using assms(3) by simp
  have cm: "unat (?d ! 0) = cm"
    unfolding 0 by (rule assms(2) [symmetric])
  have 1: "?d ! (1 + cm) = d ! (3 + cl + cm)" "?d ! (2 + cm) = d ! (4 + cl + cm)"
    by (rule nth_drop_at; use assms(3) in simp)+
  have "unmarshalCompressionMethods m' ?d = None" for m'
  proof (rule unmarshalCompressionMethods_extensions)
    show "3 + unat (?d ! 0) \<le> length ?d"
      unfolding cm using assms(3) by simp
    show "int_be (?d ! (1 + unat (?d ! 0))) (?d ! (2 + unat (?d ! 0)))
            \<noteq> length ?d - (3 + unat (?d ! 0))"
      unfolding cm 1 using assms(3,4) by simp
  qed
  moreover have "int_be (d ! 0) (d ! Suc 0) = cl"
    using assms(1) by simp
  ultimately show ?thesis
    by (simp add: unmarshalCipherSuites_def Let_def)
qed

lemma unmarshal_extensions_length:
  assumes "sid = unat (d ! 38)"
    and "cl = int_be (d ! (39 + sid)) (d ! (40 + sid))"
    and "cm = unat (d ! (41 + sid + cl))"
    and "44 + sid + cl + cm \<le> length d"
    and "int_be (d ! (42 + sid + cl + cm)) (d ! (43 + sid + cl + cm))
           \<noteq> length d - (44 + sid + cl + cm)"
  shows "unmarshal m d = None"
proof -
  let ?d = "drop (39 + sid) d"
  have 0: "?d ! 0 = d ! (39 + sid)" "?d ! 1 = d ! (40 + sid)"
    using assms(4) by simp_all
  have cl: "cl = int_be (?d ! 0) (?d ! 1)"
    unfolding 0 by (rule assms(2))
  have 1: "?d ! (2 + cl) = d ! (41 + sid + cl)"
    "?d ! (3 + cl + cm) = d ! (42 + sid + cl + cm)"
    "?d ! (4 + cl + cm) = d ! (43 + sid + cl + cm)"
    by (rule nth_drop_at; use assms(4) in simp)+
  have "unmarshalCipherSuites m' ?d = None" for m'
  proof (rule unmarshalCipherSuites_extensions [OF cl])
    show "cm = unat (?d ! (2 + cl))"
      unfolding 1 by (rule assms(3))
    show "5 + cl + cm \<le> length ?d"
      using assms(4) by simp
    show "int_be (?d ! (3 + cl + cm)) (?d ! (4 + cl + cm)) \<noteq> length ?d - (5 + cl + cm)"
      unfolding 1 using assms(4,5) by simp
  qed
  then show ?thesis
    by (simp add: unmarshal_def Let_def assms(1) [symmetric])
qed

text \<open>A stream that begins with the byte \<^verbatim>\<open>0x80\<close>: five bytes that are read as a record
  header, and two more behind them.\<close>

definition sslv2Stream :: bytes where
  "sslv2Stream = [0x80, 0x2e, 1, 0, 2, 0xaa, 0xbb]"

text \<open>
  Claim C5, as amended. \<^verbatim>\<open>unmarshal\<close> refuses a handshake message \<open>d\<close>, with no message
  returned,
  \<^item> when the session id length, the byte at offset 38, is above 32;
  \<^item> when the length of the cipher suites, the two bytes behind the session id, is odd;
  \<^item> when the length that the two bytes behind the compression methods declare for the
    extensions is not the number of bytes that follow them.
  \<^verbatim>\<open>ReadClientHello\<close> answers a record holding a message that \<^verbatim>\<open>unmarshal\<close> refuses with the
  error \<^verbatim>\<open>not a tls packet\<close>. A stream of at least five bytes whose first byte is \<^verbatim>\<open>0x80\<close>
  is refused with the SSLv2 error, whatever follows the five bytes and even when nothing
  does.
\<close>

theorem client_hello_rejections:
  "(32 < unat (d ! 38) \<longrightarrow> unmarshal m d = None)
   \<and> (odd (int_be (d ! (39 + unat (d ! 38))) (d ! (40 + unat (d ! 38))))
        \<longrightarrow> unmarshal m d = None)
   \<and> (sid = unat (d ! 38) \<and> cl = int_be (d ! (39 + sid)) (d ! (40 + sid))
        \<and> cm = unat (d ! (41 + sid + cl)) \<and> 44 + sid + cl + cm \<le> length d
        \<and> int_be (d ! (42 + sid + cl + cm)) (d ! (43 + sid + cl + cm))
              \<noteq> length d - (44 + sid + cl + cm)
        \<longrightarrow> unmarshal m d = None)
   \<and> (noErr r \<and> rdBytes r = tlsRecord v1 v2 d @ rest \<and> \<not> 0x1000 \<le> uint16_be v1 v2
        \<and> length d < 65536 \<and> length d = 4 + int24_be (d ! 1) (d ! 2) (d ! 3)
        \<and> unmarshal new_ClientHelloMsg d = None
        \<longrightarrow> fst (ReadClientHello r) = Inl ErrNotTLS)
   \<and> (noErr r' \<and> 5 \<le> length (rdBytes r') \<and> rdBytes r' ! 0 = 0x80
        \<longrightarrow> fst (ReadClientHello r') = Inl ErrSSLv2)"
proof (intro conjI impI)
  assume "32 < unat (d ! 38)"
  then show "unmarshal m d = None"
    by (rule unmarshal_session_id_too_long)
next
  assume "odd (int_be (d ! (39 + unat (d ! 38))) (d ! (40 + unat (d ! 38))))"
  then show "unmarshal m d = None"
    by (rule unmarshal_odd_cipher_suites)
next
  assume "sid = unat (d ! 38) \<and> cl = int_be (d ! (39 + sid)) (d ! (40 + sid))
        \<and> cm = unat (d ! (41 + sid + cl)) \<and> 44 + sid + cl + cm \<le> length d
        \<and> int_be (d ! (42 + sid + cl + cm)) (d ! (43 + sid + cl + cm))
              \<noteq> length d - (44 + sid + cl + cm)"
  then show "unmarshal m d = None"
    by (intro unmarshal_extensions_length [of sid d cl cm]) blast+
next
  assume a: "noErr r \<and> rdBytes r = tlsRecord v1 v2 d @ rest \<and> \<not> 0x1000 \<le> uint16_be v1 v2
        \<and> length d < 65536 \<and> length d = 4 + int24_be (d ! 1) (d ! 2) (d ! 3)
        \<and> unmarshal new_ClientHelloMsg d = None"
  define n where "n = int24_be (d ! 1) (d ! 2) (d ! 3)"
  have len: "length d = 4 + n"
    using a by (simp add: n_def)
  have "fst (ReadClientHello r) =
           (if d ! 0 \<noteq> typeClientHello then Inl ErrNotTLS
            else (case unmarshal new_ClientHelloMsg (take (4 + n) d) of
                    None \<Rightarrow> Inl ErrNotTLS
                  | Some msg \<Rightarrow> Inr msg))"
  proof (rule ReadClientHello_one_record [OF _ _ _ _ _ n_def])
    show "noErr r" "rdBytes r = tlsRecord v1 v2 d @ rest" "\<not> 0x1000 \<le> uint16_be v1 v2"
      "length d < 65536"
      using a by blast+
  qed (simp_all add: len)
  moreover have "unmarshal new_ClientHelloMsg (take (4 + n) d) = None"
    using a len by simp
  ultimately show "fst (ReadClientHello r) = Inl ErrNotTLS"
    by simp
next
  assume "noErr r' \<and> 5 \<le> length (rdBytes r') \<and> rdBytes r' ! 0 = 0x80"
  then show "fst (ReadClientHello r') = Inl ErrSSLv2"
    by (intro ReadClientHello_sslv2) blast+
qed

lemma helloMsg_nth:
  "helloMsg ! 38 = 0" "helloMsg ! 39 = 0" "helloMsg ! 40 = 2" "helloMsg ! 43 = 1"
  "helloMsg ! 45 = 0"
  by (simp_all add: helloMsg_def nth_append)

text \<open>The ClientHello above with the session id length 33, with the cipher suites
  length 3, and with the extensions length 12 where 13 bytes follow; the first of them in
  a record; and a stream of the five bytes \<^verbatim>\<open>0x80 0x2e 1 0 2\<close> and no more.\<close>

theorem client_hello_rejections_witness:
  "unmarshal new_ClientHelloMsg (helloMsg[38 := 33]) = None
   \<and> unmarshal new_ClientHelloMsg (helloMsg[40 := 3]) = None
   \<and> unmarshal new_ClientHelloMsg (helloMsg[46 := 12]) = None
   \<and> fst (ReadClientHello (bytes_NewReader (tlsRecord 3 1 (helloMsg[38 := 33]))))
       = Inl ErrNotTLS
   \<and> fst (ReadClientHello (bytes_NewReader (take 5 sslv2Stream))) = Inl ErrSSLv2"
proof -
  let ?a = "helloMsg[38 := 33]" and ?b = "helloMsg[40 := 3]" and ?c = "helloMsg[46 := 12]"
  have a: "32 < unat (?a ! 38)"
    by (simp add: helloMsg_length)
  have 1: "unmarshal new_ClientHelloMsg ?a = None"
    using client_hello_rejections [of ?a new_ClientHelloMsg] a by blast
  have b38: "unat (?b ! 38) = 0"
    by (simp add: helloMsg_nth)
  have b: "odd (int_be (?b ! (39 + unat (?b ! 38))) (?b ! (40 + unat (?b ! 38))))"
    unfolding b38 by (simp add: helloMsg_nth helloMsg_length int_be_eq)
  have 2: "unmarshal new_ClientHelloMsg ?b = None"
    using client_hello_rejections [of ?b new_ClientHelloMsg] b by blast
  have c: "0 = unat (?c ! 38)" "2 = int_be (?c ! (39 + 0)) (?c ! (40 + 0))"
    "1 = unat (?c ! (41 + 0 + 2))" "44 + 0 + 2 + 1 \<le> length ?c"
    "int_be (?c ! (42 + 0 + 2 + 1)) (?c ! (43 + 0 + 2 + 1)) \<noteq> length ?c - (44 + 0 + 2 + 1)"
    by (simp_all add: helloMsg_nth helloMsg_length int_be_eq)
  have 3: "unmarshal new_ClientHelloMsg ?c = None"
    using client_hello_rejections [of ?c new_ClientHelloMsg 0 2 1] c by blast
  have d: "noErr (bytes_NewReader (tlsRecord 3 1 ?a))"
    "rdBytes (bytes_NewReader (tlsRecord 3 1 ?a)) = tlsRecord 3 1 ?a @ []"
    "length ?a < 65536" "length ?a = 4 + int24_be (?a ! 1) (?a ! 2) (?a ! 3)"
    using helloMsg_n by (simp_all add: noErr_NewReader rdBytes_NewReader helloMsg_length)
  have 4: "fst (ReadClientHello (bytes_NewReader (tlsRecord 3 1 ?a))) = Inl ErrNotTLS"
    using client_hello_rejections
            [of ?a new_ClientHelloMsg _ _ _ "bytes_NewReader (tlsRecord 3 1 ?a)" 3 1 "[]"]
      d version_ok 1
    by blast
  have e: "noErr (bytes_NewReader (take 5 sslv2Stream))"
    "5 \<le> length (rdBytes (bytes_NewReader (take 5 sslv2Stream)))"
    "rdBytes (bytes_NewReader (take 5 sslv2Stream)) ! 0 = 0x80"
    by (simp_all add: noErr_NewReader rdBytes_NewReader sslv2Stream_def)
  have 5: "fst (ReadClientHello (bytes_NewReader (take 5 sslv2Stream))) = Inl ErrSSLv2"
    using client_hello_rejections
            [of _ _ _ _ _ _ _ _ _ "bytes_NewReader (take 5 sslv2Stream)"] e
    by blast
  from 1 2 3 4 5 show ?thesis
    by blast
qed

text \<open>The claim as the spec states it has the record refused before any byte behind its
  header is read from the source. \<^verbatim>\<open>readFromUntil\<close> hands the reader the whole free
  capacity of the block, 1024 bytes for a fresh one, so the call that fetches the header
  takes what the source has behind it as well: of the seven bytes of the stream above
  none is left in the reader when \<^verbatim>\<open>ReadClientHello\<close> returns its error.\<close>

theorem sslv2_payload_read_counterexample:
  "\<not> (\<forall>r. noErr r \<and> 5 \<le> length (rdBytes r) \<and> rdBytes r ! 0 = 0x80
         \<longrightarrow> rdBytes (snd (ReadClientHello r)) = drop 5 (rdBytes r))"
proof
  assume claim: "\<forall>r. noErr r \<and> 5 \<le> length (rdBytes r) \<and> rdBytes r ! 0 = 0x80
         \<longrightarrow> rdBytes (snd (ReadClientHello r)) = drop 5 (rdBytes r)"
  let ?r = "bytes_NewReader sslv2Stream"
  have "reserve_grow 1024 5 = 1024"
    by (subst reserve_grow.simps) simp
  then have "readFromUntil newBlock ?r recordHeaderLen
               = (None, \<lparr>data = sslv2Stream, cap = 1024, off = 0\<rparr>, [])"
    by (subst readFromUntil_unfold)
       (simp add: newBlock_def recordHeaderLen_def reserve_def bytes_NewReader_def
          sslv2Stream_def)
  then have "snd (ReadClientHello ?r) = []"
    by (simp add: ReadClientHello_def readRecord_def sslv2Stream_def)
  moreover have "noErr ?r \<and> 5 \<le> length (rdBytes ?r) \<and> rdBytes ?r ! 0 = 0x80"
    by (simp add: noErr_NewReader rdBytes_NewReader sslv2Stream_def)
  ultimately have "rdBytes [] = drop 5 sslv2Stream"
    using claim rdBytes_NewReader [of sslv2Stream] by metis
  then show False
    by (simp add: rdBytes_def sslv2Stream_def)
qed

end
